theory Spec2Isabelle
  imports Main "HOL-Library.Sublist" "HOL-Library.Multiset" "HOL-Library.Char_ord"
    "HOL-Library.List_Lexorder"
begin

section \<open>Go values used by the printer\<close>

text \<open>
  A Go \<open>string\<close> and a Go \<open>[]byte\<close> are sequences of bytes: both are \<^typ>\<open>string\<close>
  (a list of 8-bit characters) here. A pointer to a struct (\<open>*Hunk\<close>, \<open>*FileDiff\<close>,
  \<open>*time.Time\<close>) is an \<open>option\<close>: \<open>None\<close> is the nil pointer. A run-time panic is
  a value of type \<open>panic\<close>; a function that may panic returns \<open>panic + result\<close>.
  Writes to a \<open>bytes.Buffer\<close> never return an error, so the \<open>err != nil\<close> branches
  of the printer are never taken and have no counterpart below.
\<close>

datatype panic = SliceBoundsOutOfRange | NilPointerDereference

definition nl :: char where
  "nl = CHR 0x0A"

text \<open>\<open>fmt\<close>'s verb \<open>%d\<close> on a non-negative integer: its decimal digits.\<close>

definition digit :: "nat \<Rightarrow> char" where
  "digit d = ''0123456789'' ! d"

fun showNat :: "nat \<Rightarrow> string" where
  "showNat n = (if n < 10 then [digit n] else showNat (n div 10) @ [digit (n mod 10)])"

declare showNat.simps [simp del]

text \<open>
  The slice expressions \<open>b[:n]\<close> and \<open>b[n:]\<close> on a byte slice whose capacity is its
  length: both panic when \<open>n\<close> is beyond the length. (With a larger capacity \<open>b[:n]\<close>
  accepts \<open>n\<close> up to the capacity and \<open>b[n:]\<close> still panics beyond the length, so the
  two together panic in the same cases.)
\<close>

definition sliceTo :: "string \<Rightarrow> nat \<Rightarrow> panic + string" where
  "sliceTo b n = (if n \<le> length b then Inr (take n b) else Inl SliceBoundsOutOfRange)"

definition sliceFrom :: "string \<Rightarrow> nat \<Rightarrow> panic + string" where
  "sliceFrom b n = (if n \<le> length b then Inr (drop n b) else Inl SliceBoundsOutOfRange)"

section \<open>Hunks\<close>

text \<open>
  Modelled from the spec: the declaration of \<open>Hunk\<close> is not among the sources. Section 3 of
  the specification gives the four range fields as non-negative integers, \<open>section\<close> as a
  string, \<open>body\<close> as a byte sequence and \<open>origNoNewlineAt\<close> as a byte offset into the body.
\<close>

record Hunk =
  OrigStartLine :: nat
  OrigLines :: nat
  OrigNoNewlineAt :: nat
  NewStartLine :: nat
  NewLines :: nat
  Section :: string
  Body :: string

text \<open>
  Modelled from the spec: the constant \<open>noNewlineMessage\<close> is not among the sources. Section
  4.4 of the specification names it: the conventional notice, a backslash, a space and
  \<open>No newline at end of file\<close>.
\<close>

definition noNewlineMessage :: string where
  "noNewlineMessage = CHR 0x5C # '' No newline at end of file''"

text \<open>\<open>printNoNewlineMessage\<close> (print.go, line 215): the notice, then \<open>Fprintln\<close>'s newline.\<close>

definition printNoNewlineMessage :: "string \<Rightarrow> string" where
  "printNoNewlineMessage buf = (buf @ noNewlineMessage) @ [nl]"

text \<open>
  The body of the loop of \<open>PrintHunks\<close> (print.go, lines 171 to 210) for one hunk, on the
  buffer written so far.
\<close>

definition printHunk :: "string \<Rightarrow> Hunk \<Rightarrow> panic + string" where
  "printHunk buf0 hunk =
    (let buf = buf0 @ ''@@ -'' @ showNat (OrigStartLine hunk) @ '','' @ showNat (OrigLines hunk)
                 @ '' +'' @ showNat (NewStartLine hunk) @ '','' @ showNat (NewLines hunk) @ '' @@'';
         buf = (if Section hunk \<noteq> [] then buf @ '' '' @ Section hunk else buf);
         buf = buf @ [nl];
         written =
           (if OrigNoNewlineAt hunk = 0 then Inr (buf @ Body hunk)
            else
              (case sliceTo (Body hunk) (OrigNoNewlineAt hunk) of
                Inl e \<Rightarrow> Inl e
              | Inr front \<Rightarrow>
                  (case sliceFrom (Body hunk) (OrigNoNewlineAt hunk) of
                    Inl e \<Rightarrow> Inl e
                  | Inr back \<Rightarrow> Inr (printNoNewlineMessage (buf @ front) @ back))))
     in case written of
          Inl e \<Rightarrow> Inl e
        | Inr buf \<Rightarrow>
            if \<not> suffix [nl] (Body hunk) then Inr (printNoNewlineMessage (buf @ [nl]))
            else Inr buf)"

text \<open>The loop of \<open>PrintHunks\<close> over the hunk pointers; a nil pointer panics at its first field.\<close>

fun PrintHunks_loop :: "string \<Rightarrow> Hunk option list \<Rightarrow> panic + string" where
  "PrintHunks_loop buf [] = Inr buf"
| "PrintHunks_loop buf (None # hunks) = Inl NilPointerDereference"
| "PrintHunks_loop buf (Some hunk # hunks) =
    (case printHunk buf hunk of
      Inl e \<Rightarrow> Inl e
    | Inr buf' \<Rightarrow> PrintHunks_loop buf' hunks)"

definition PrintHunks :: "Hunk option list \<Rightarrow> panic + string" where
  "PrintHunks hunks = PrintHunks_loop [] hunks"

subsection \<open>The rendering of one hunk, as the specification words it\<close>

definition rangeHeader :: "Hunk \<Rightarrow> string" where
  "rangeHeader h =
    ''@@ -'' @ showNat (OrigStartLine h) @ '','' @ showNat (OrigLines h)
      @ '' +'' @ showNat (NewStartLine h) @ '','' @ showNat (NewLines h) @ '' @@''
      @ (if Section h = [] then [] else '' '' @ Section h) @ [nl]"

definition markerLine :: string where
  "markerLine = noNewlineMessage @ [nl]"

definition bodyWithMarker :: "Hunk \<Rightarrow> string" where
  "bodyWithMarker h =
    (if OrigNoNewlineAt h = 0 then Body h
     else take (OrigNoNewlineAt h) (Body h) @ markerLine @ drop (OrigNoNewlineAt h) (Body h))"

definition trailingMarker :: "Hunk \<Rightarrow> string" where
  "trailingMarker h = (if suffix [nl] (Body h) then [] else [nl] @ markerLine)"

definition hunkRendering :: "Hunk \<Rightarrow> string" where
  "hunkRendering h = rangeHeader h @ bodyWithMarker h @ trailingMarker h"

section \<open>Quoted names: \<open>fmt\<close>'s verb \<open>%q\<close>\<close>

text \<open>
  \<open>fmt.Sprintf("%q", s)\<close> is \<open>strconv.Quote s\<close>: a double quote, every rune of \<open>s\<close> as
  \<open>strconv\<close>'s \<open>appendEscapedRune\<close> writes it, a double quote. Runes are natural
  numbers. The tables of \<open>strconv.IsPrint\<close> for runes above \<open>0xFF\<close> are a parameter
  \<open>tbl\<close>; up to \<open>0xFF\<close> the function is written out.
\<close>

definition dquote :: char where
  "dquote = CHR 0x22"

definition backslash :: char where
  "backslash = CHR 0x5C"

definition lowerhex :: "nat \<Rightarrow> char" where
  "lowerhex d = ''0123456789abcdef'' ! (d mod 16)"

definition RuneError :: nat where
  "RuneError = 0xFFFD"

text \<open>
  The tables \<open>first\<close> and \<open>acceptRanges\<close> of \<open>unicode/utf8\<close>, for a leading byte from
  \<open>0xC2\<close> to \<open>0xF4\<close>: the length of the sequence it starts and the range its second byte
  must lie in.
\<close>

definition seqSize :: "nat \<Rightarrow> nat" where
  "seqSize s0 = (if s0 < 0xE0 then 2 else if s0 < 0xF0 then 3 else 4)"

definition acceptLo :: "nat \<Rightarrow> nat" where
  "acceptLo s0 = (if s0 = 0xE0 then 0xA0 else if s0 = 0xF0 then 0x90 else 0x80)"

definition acceptHi :: "nat \<Rightarrow> nat" where
  "acceptHi s0 = (if s0 = 0xED then 0x9F else if s0 = 0xF4 then 0x8F else 0xBF)"

text \<open>\<open>utf8.DecodeRuneInString\<close>: the first rune of \<open>s\<close> and its width in bytes.\<close>

definition DecodeRuneInString :: "string \<Rightarrow> nat \<times> nat" where
  "DecodeRuneInString s =
    (if s = [] then (RuneError, 0)
     else
       let n = length s; s0 = (of_char (s ! 0) :: nat) in
       if s0 < 0x80 then (s0, 1)
       else if s0 < 0xC2 \<or> 0xF4 < s0 then (RuneError, 1)
       else if n < seqSize s0 then (RuneError, 1)
       else
         let s1 = (of_char (s ! 1) :: nat) in
         if s1 < acceptLo s0 \<or> acceptHi s0 < s1 then (RuneError, 1)
         else if seqSize s0 \<le> 2 then ((s0 mod 32) * 64 + s1 mod 64, 2)
         else
           let s2 = (of_char (s ! 2) :: nat) in
           if s2 < 0x80 \<or> 0xBF < s2 then (RuneError, 1)
           else if seqSize s0 \<le> 3 then ((s0 mod 16) * 4096 + (s1 mod 64) * 64 + s2 mod 64, 3)
           else
             let s3 = (of_char (s ! 3) :: nat) in
             if s3 < 0x80 \<or> 0xBF < s3 then (RuneError, 1)
             else ((s0 mod 8) * 262144 + (s1 mod 64) * 4096 + (s2 mod 64) * 64 + s3 mod 64, 4))"

text \<open>\<open>utf8.AppendRune\<close>: the UTF-8 encoding of a rune.\<close>

definition AppendRune :: "string \<Rightarrow> nat \<Rightarrow> string" where
  "AppendRune p r =
    (if r \<le> 0x7F then p @ [char_of r]
     else if r \<le> 0x7FF then p @ [char_of (0xC0 + r div 64), char_of (0x80 + r mod 64)]
     else if 0x10FFFF < r \<or> (0xD800 \<le> r \<and> r \<le> 0xDFFF) then p @ [CHR 0xEF, CHR 0xBF, CHR 0xBD]
     else if r \<le> 0xFFFF then
       p @ [char_of (0xE0 + r div 4096), char_of (0x80 + (r div 64) mod 64),
            char_of (0x80 + r mod 64)]
     else
       p @ [char_of (0xF0 + r div 262144), char_of (0x80 + (r div 4096) mod 64),
            char_of (0x80 + (r div 64) mod 64), char_of (0x80 + r mod 64)])"

definition IsPrint :: "(nat \<Rightarrow> bool) \<Rightarrow> nat \<Rightarrow> bool" where
  "IsPrint tbl r =
    (if r \<le> 0xFF then
       (if 0x20 \<le> r \<and> r \<le> 0x7E then True
        else if 0xA1 \<le> r \<and> r \<le> 0xFF then r \<noteq> 0xAD
        else False)
     else tbl r)"

text \<open>The \<open>k\<close> lowest hexadecimal digits of \<open>r\<close>, the highest first.\<close>

fun hexDigits :: "nat \<Rightarrow> nat \<Rightarrow> string" where
  "hexDigits 0 r = []"
| "hexDigits (Suc k) r = lowerhex ((r div 16 ^ k) mod 16) # hexDigits k r"

definition appendEscapedRune :: "(nat \<Rightarrow> bool) \<Rightarrow> string \<Rightarrow> nat \<Rightarrow> string" where
  "appendEscapedRune tbl buf r =
    (if r = of_char dquote \<or> r = of_char backslash then buf @ [backslash, char_of r]
     else if IsPrint tbl r then AppendRune buf r
     else if r = 7 then buf @ [backslash, CHR ''a'']
     else if r = 8 then buf @ [backslash, CHR ''b'']
     else if r = 12 then buf @ [backslash, CHR ''f'']
     else if r = 10 then buf @ [backslash, CHR ''n'']
     else if r = 13 then buf @ [backslash, CHR ''r'']
     else if r = 9 then buf @ [backslash, CHR ''t'']
     else if r = 11 then buf @ [backslash, CHR ''v'']
     else if r < 0x20 \<or> r = 0x7F then
       buf @ [backslash, CHR ''x''] @ [lowerhex (r div 16), lowerhex (r mod 16)]
     else if 0x10FFFF < r \<or> (0xD800 \<le> r \<and> r \<le> 0xDFFF) then
       buf @ [backslash, CHR ''u''] @ hexDigits 4 RuneError
     else if r < 0x10000 then buf @ [backslash, CHR ''u''] @ hexDigits 4 r
     else buf @ [backslash, CHR ''U''] @ hexDigits 8 r)"

text \<open>
  The loop of \<open>strconv\<close>'s \<open>appendQuotedWith\<close>: a byte that starts no valid UTF-8 sequence
  is written as \<open>\x\<close> and two digits, every other rune by \<open>appendEscapedRune\<close>.
\<close>

function appendQuoted_loop :: "(nat \<Rightarrow> bool) \<Rightarrow> string \<Rightarrow> string \<Rightarrow> string" where
  "appendQuoted_loop tbl buf s =
    (if s = [] then buf
     else
       let r0 = (of_char (s ! 0) :: nat);
           rw = (if 0x80 \<le> r0 then DecodeRuneInString s else (r0, 1));
           r = fst rw;
           width = snd rw
       in
         if width = 1 \<and> r = RuneError then
           appendQuoted_loop tbl
             (buf @ [backslash, CHR ''x''] @ [lowerhex (r0 div 16), lowerhex (r0 mod 16)])
             (drop width s)
         else appendQuoted_loop tbl (appendEscapedRune tbl buf r) (drop width s))"
  by pat_completeness auto
termination
proof (relation "measure (\<lambda>(tbl, buf, s). length s)", goal_cases)
  case 1
  show ?case by simp
next
  case (2 tbl buf s r0 rw r width)
  from 2(1) 2(6) have "s \<noteq> []" and "width = 1" by blast+
  then show ?case by simp
next
  case (3 tbl buf s r0 rw r width)
  from 3(1) have ne: "s \<noteq> []" by blast
  then have "0 < snd (DecodeRuneInString s)"
    by (simp add: DecodeRuneInString_def Let_def)
  then have "0 < snd (if 128 \<le> r0 then DecodeRuneInString s else (r0, 1))"
    by simp
  with 3(3) 3(5) have "0 < width" by blast
  with ne show ?case by simp
qed

declare appendQuoted_loop.simps [simp del]

definition Sprintf_q :: "(nat \<Rightarrow> bool) \<Rightarrow> string \<Rightarrow> string" where
  "Sprintf_q tbl s = appendQuoted_loop tbl [dquote] s @ [dquote]"

text \<open>
  One turn of that loop on a non-empty \<open>s\<close>: what it appends to the buffer and how many
  bytes it consumes. \<open>quoteBody\<close> is what the loop writes between the two quotes.
\<close>

definition runeStep :: "(nat \<Rightarrow> bool) \<Rightarrow> string \<Rightarrow> string \<times> nat" where
  "runeStep tbl s =
    (let r0 = (of_char (s ! 0) :: nat);
         rw = (if 0x80 \<le> r0 then DecodeRuneInString s else (r0, 1))
     in if snd rw = 1 \<and> fst rw = RuneError then
          ([backslash, CHR ''x''] @ [lowerhex (r0 div 16), lowerhex (r0 mod 16)], snd rw)
        else (appendEscapedRune tbl [] (fst rw), snd rw))"

definition quoteBody :: "(nat \<Rightarrow> bool) \<Rightarrow> string \<Rightarrow> string" where
  "quoteBody tbl s = appendQuoted_loop tbl [] s"

text \<open>\<open>quote\<close> (print.go, line 136). The source tests the prefix twice.\<close>

definition quote :: "(nat \<Rightarrow> bool) \<Rightarrow> string \<Rightarrow> string" where
  "quote tbl inp =
    (if inp = ''/dev/null'' then inp
     else if prefix [dquote] inp \<and> prefix [dquote] inp then inp
     else Sprintf_q tbl inp)"

subsection \<open>The quoted text, as the specification words it\<close>

text \<open>
  A hexadecimal digit in lower case, counted up from \<open>0\<close> and from \<open>a\<close>; the \<open>k\<close> lowest
  hexadecimal digits of a number, the lowest last; and the escape of one byte as \<open>\x\<close>
  and its two digits.
\<close>

definition hexDigit :: "nat \<Rightarrow> char" where
  "hexDigit d =
    (if d < 10 then char_of (of_char (CHR ''0'') + d)
     else char_of (of_char (CHR ''a'') + (d - 10)))"

fun hexNumber :: "nat \<Rightarrow> nat \<Rightarrow> string" where
  "hexNumber 0 r = []"
| "hexNumber (Suc k) r = hexNumber k (r div 16) @ [hexDigit (r mod 16)]"

definition hexEscape :: "char \<Rightarrow> string" where
  "hexEscape c = [backslash, CHR ''x''] @ hexNumber 2 (of_char c)"

text \<open>
  The escape of one ASCII byte: a backslash before a double quote and before a backslash,
  the escapes of the control characters, every other byte as it is.
\<close>

definition escapeByte :: "char \<Rightarrow> string" where
  "escapeByte c =
    (let b = (of_char c :: nat) in
     if b = 0x22 then [backslash, dquote]
     else if b = 0x5C then [backslash, backslash]
     else if b = 7 then [backslash, CHR ''a'']
     else if b = 8 then [backslash, CHR ''b'']
     else if b = 12 then [backslash, CHR ''f'']
     else if b = 10 then [backslash, CHR ''n'']
     else if b = 13 then [backslash, CHR ''r'']
     else if b = 9 then [backslash, CHR ''t'']
     else if b = 11 then [backslash, CHR ''v'']
     else if b < 0x20 \<or> b = 0x7F then hexEscape c
     else [c])"

text \<open>
  Well-formed UTF-8 sequences of two, three and four bytes (the Unicode Standard, table
  3-7): the ranges of the leading byte and of the bytes that continue it.
\<close>

definition continuation :: "char \<Rightarrow> bool" where
  "continuation b = (0x80 \<le> (of_char b :: nat) \<and> (of_char b :: nat) \<le> 0xBF)"

definition wellFormed2 :: "char \<Rightarrow> char \<Rightarrow> bool" where
  "wellFormed2 b0 b1 =
    (0xC2 \<le> (of_char b0 :: nat) \<and> (of_char b0 :: nat) \<le> 0xDF \<and> continuation b1)"

definition wellFormed3 :: "char \<Rightarrow> char \<Rightarrow> char \<Rightarrow> bool" where
  "wellFormed3 b0 b1 b2 =
    (((of_char b0 :: nat) = 0xE0 \<and> 0xA0 \<le> (of_char b1 :: nat) \<and> (of_char b1 :: nat) \<le> 0xBF
      \<or> 0xE1 \<le> (of_char b0 :: nat) \<and> (of_char b0 :: nat) \<le> 0xEC \<and> continuation b1
      \<or> (of_char b0 :: nat) = 0xED \<and> 0x80 \<le> (of_char b1 :: nat) \<and> (of_char b1 :: nat) \<le> 0x9F
      \<or> 0xEE \<le> (of_char b0 :: nat) \<and> (of_char b0 :: nat) \<le> 0xEF \<and> continuation b1)
     \<and> continuation b2)"

definition wellFormed4 :: "char \<Rightarrow> char \<Rightarrow> char \<Rightarrow> char \<Rightarrow> bool" where
  "wellFormed4 b0 b1 b2 b3 =
    (((of_char b0 :: nat) = 0xF0 \<and> 0x90 \<le> (of_char b1 :: nat) \<and> (of_char b1 :: nat) \<le> 0xBF
      \<or> 0xF1 \<le> (of_char b0 :: nat) \<and> (of_char b0 :: nat) \<le> 0xF3 \<and> continuation b1
      \<or> (of_char b0 :: nat) = 0xF4 \<and> 0x80 \<le> (of_char b1 :: nat) \<and> (of_char b1 :: nat) \<le> 0x8F)
     \<and> continuation b2 \<and> continuation b3)"

text \<open>
  A unit of the input is a well-formed sequence at its front, and otherwise its first
  byte. \<open>units\<close> cuts the input into its units, from left to right.
\<close>

fun unitWidth :: "string \<Rightarrow> nat" where
  "unitWidth (b0 # b1 # b2 # b3 # s) =
    (if wellFormed2 b0 b1 then 2 else if wellFormed3 b0 b1 b2 then 3
     else if wellFormed4 b0 b1 b2 b3 then 4 else 1)"
| "unitWidth [b0, b1, b2] =
    (if wellFormed2 b0 b1 then 2 else if wellFormed3 b0 b1 b2 then 3 else 1)"
| "unitWidth [b0, b1] = (if wellFormed2 b0 b1 then 2 else 1)"
| "unitWidth s = 1"

function units :: "string \<Rightarrow> string list" where
  "units s = (if s = [] then [] else take (unitWidth s) s # units (drop (unitWidth s) s))"
  by pat_completeness auto
termination
proof (relation "measure length", goal_cases)
  case 1
  show ?case by simp
next
  case (2 s)
  have "0 < unitWidth s" by (cases s rule: unitWidth.cases) simp_all
  with 2 show ?case by simp
qed

declare units.simps [simp del]

text \<open>
  A character above \<open>0x7F\<close> is printable up to \<open>0xFF\<close> from \<open>0xA1\<close> on, the soft hyphen
  \<open>0xAD\<close> apart, and above \<open>0xFF\<close> as the table says. \<open>scalarValue\<close> is the character
  that a well-formed sequence encodes.
\<close>

definition printable :: "(nat \<Rightarrow> bool) \<Rightarrow> nat \<Rightarrow> bool" where
  "printable tbl r = (if r \<le> 0xFF then 0xA1 \<le> r \<and> r \<noteq> 0xAD else tbl r)"

definition scalarValue :: "string \<Rightarrow> nat" where
  "scalarValue u =
    (if length u = 2 then (of_char (u ! 0) - 0xC0) * 64 + (of_char (u ! 1) - 0x80)
     else if length u = 3 then
       (of_char (u ! 0) - 0xE0) * 4096 + (of_char (u ! 1) - 0x80) * 64 + (of_char (u ! 2) - 0x80)
     else (of_char (u ! 0) - 0xF0) * 262144 + (of_char (u ! 1) - 0x80) * 4096
          + (of_char (u ! 2) - 0x80) * 64 + (of_char (u ! 3) - 0x80))"

text \<open>
  What is written for one unit: an ASCII byte as \<open>escapeByte\<close> says, any other single
  byte as \<open>\x\<close> and two digits, a well-formed sequence as it is when its character is
  printable, and as \<open>\u\<close> and four digits, or \<open>\U\<close> and eight, when it is not.
\<close>

definition unitText :: "(nat \<Rightarrow> bool) \<Rightarrow> string \<Rightarrow> string" where
  "unitText tbl u =
    (if length u = 1 then
       (if (of_char (u ! 0) :: nat) < 0x80 then escapeByte (u ! 0) else hexEscape (u ! 0))
     else if printable tbl (scalarValue u) then u
     else if scalarValue u < 0x10000 then [backslash, CHR ''u''] @ hexNumber 4 (scalarValue u)
     else [backslash, CHR ''U''] @ hexNumber 8 (scalarValue u))"

definition quotedText :: "(nat \<Rightarrow> bool) \<Rightarrow> string \<Rightarrow> string" where
  "quotedText tbl s = concat (map (unitText tbl) (units s))"

section \<open>File diffs\<close>

text \<open>
  Modelled from the spec: the declaration of \<open>FileDiff\<close> is not among the sources. Section 3
  of the specification gives its fields; print.go tests \<open>Hunks\<close> against nil, so the
  sequence of hunks is optional, and takes the two times as pointers. \<open>'t\<close> is
  \<open>time.Time\<close>.
\<close>

record 't FileDiff =
  OrigName :: string
  OrigTime :: "'t option"
  NewName :: string
  NewTime :: "'t option"
  Extended :: "string list"
  Hunks :: "Hunk option list option"

text \<open>
  What the printer uses and the sources do not hold: the tables of \<open>strconv.IsPrint\<close>,
  \<open>filepath.Dir\<close> and \<open>filepath.Base\<close> (which depend on the platform), the message
  \<open>fmt.Sprintf(onlyInMessage, dir, base)\<close> of the constant \<open>onlyInMessage\<close>, and
  \<open>t.Format(diffTimeFormatLayout)\<close> of the constant \<open>diffTimeFormatLayout\<close>.
\<close>

record 't Env =
  isPrintTable :: "nat \<Rightarrow> bool"
  filepathDir :: "string \<Rightarrow> string"
  filepathBase :: "string \<Rightarrow> string"
  onlyInMessage :: "string \<Rightarrow> string \<Rightarrow> string"
  diffTimeFormat :: "'t \<Rightarrow> string"

record PrintFileDiffOptions =
  quoteNames :: bool

type_synonym PrintFileDiffOption = "PrintFileDiffOptions \<Rightarrow> PrintFileDiffOptions"

definition WithQuotedNames :: PrintFileDiffOption where
  "WithQuotedNames = (\<lambda>opts. opts\<lparr>quoteNames := True\<rparr>)"

definition getOptions :: "PrintFileDiffOption list \<Rightarrow> PrintFileDiffOptions" where
  "getOptions opts = fold (\<lambda>applyOption options. applyOption options) opts \<lparr>quoteNames = False\<rparr>"

text \<open>\<open>printQuotedXheader\<close> (print.go, line 99).\<close>

definition printQuotedXheader :: "'t Env \<Rightarrow> string \<Rightarrow> 't FileDiff \<Rightarrow> string \<Rightarrow> string" where
  "printQuotedXheader E buf d xheader =
    (if prefix ''diff --git'' xheader then
       buf @ ''diff --git '' @ quote (isPrintTable E) (OrigName d) @ '' ''
         @ quote (isPrintTable E) (NewName d) @ [nl]
     else if prefix ''rename from '' xheader then
       (let rem = drop (length ''rename from '') xheader
        in buf @ ''rename from '' @ quote (isPrintTable E) rem @ [nl])
     else if prefix ''rename to '' xheader then
       (let rem = drop (length ''rename to '') xheader
        in buf @ ''rename to '' @ quote (isPrintTable E) rem @ [nl])
     else buf @ xheader @ [nl])"

text \<open>\<open>printFileHeader\<close> (print.go, line 148).\<close>

definition printFileHeader ::
  "'t Env \<Rightarrow> string \<Rightarrow> string \<Rightarrow> string \<Rightarrow> 't option \<Rightarrow> bool \<Rightarrow> string" where
  "printFileHeader E w prefix0 filename0 timestamp quoteName =
    (let filename = (if quoteName then quote (isPrintTable E) filename0 else filename0);
         w = w @ prefix0 @ filename;
         w = (case timestamp of None \<Rightarrow> w | Some t \<Rightarrow> w @ [CHR 0x09] @ diffTimeFormat E t)
     in w @ [nl])"

text \<open>The loop of \<open>PrintFileDiff\<close> over the extended headers (print.go, lines 54 to 65).\<close>

fun printXheaders ::
  "'t Env \<Rightarrow> PrintFileDiffOptions \<Rightarrow> 't FileDiff \<Rightarrow> string \<Rightarrow> string list \<Rightarrow> string" where
  "printXheaders E opts d buf [] = buf"
| "printXheaders E opts d buf (xheader # rest) =
    (if quoteNames opts then printXheaders E opts d (printQuotedXheader E buf d xheader) rest
     else printXheaders E opts d (buf @ xheader @ [nl]) rest)"

text \<open>\<open>PrintFileDiff\<close> (print.go, line 50); a nil \<open>d\<close> panics at \<open>d.Extended\<close>.\<close>

definition PrintFileDiff ::
  "'t Env \<Rightarrow> 't FileDiff option \<Rightarrow> PrintFileDiffOption list \<Rightarrow> panic + string" where
  "PrintFileDiff E dp options =
    (case dp of
      None \<Rightarrow> Inl NilPointerDereference
    | Some d \<Rightarrow>
        (let opts = getOptions options;
             buf = printXheaders E opts d [] (Extended d)
         in
           if NewName d = [] then
             Inr (buf @ onlyInMessage E (filepathDir E (OrigName d)) (filepathBase E (OrigName d)))
           else
             (case Hunks d of
               None \<Rightarrow> Inr buf
             | Some hunks \<Rightarrow>
                 (let buf = printFileHeader E buf ''--- '' (OrigName d) (OrigTime d) (quoteNames opts);
                      buf = printFileHeader E buf ''+++ '' (NewName d) (NewTime d) (quoteNames opts)
                  in
                    (case PrintHunks hunks of
                      Inl err \<Rightarrow> Inl err
                    | Inr ph \<Rightarrow> Inr (buf @ ph))))))"

text \<open>\<open>PrintMultiFileDiff\<close> (print.go, line 33): its loop, then the function.\<close>

fun PrintMultiFileDiff_loop ::
  "'t Env \<Rightarrow> PrintFileDiffOption list \<Rightarrow> string \<Rightarrow> 't FileDiff option list \<Rightarrow> panic + string" where
  "PrintMultiFileDiff_loop E options buf [] = Inr buf"
| "PrintMultiFileDiff_loop E options buf (d # ds) =
    (case PrintFileDiff E d options of
      Inl err \<Rightarrow> Inl err
    | Inr diff \<Rightarrow> PrintMultiFileDiff_loop E options (buf @ diff) ds)"

definition PrintMultiFileDiff ::
  "'t Env \<Rightarrow> 't FileDiff option list \<Rightarrow> PrintFileDiffOption list \<Rightarrow> panic + string" where
  "PrintMultiFileDiff E ds options = PrintMultiFileDiff_loop E options [] ds"

subsection \<open>The lines of a file diff, as the specification words them\<close>

definition extendedLine :: "'t Env \<Rightarrow> bool \<Rightarrow> 't FileDiff \<Rightarrow> string \<Rightarrow> string" where
  "extendedLine E quoted d xheader =
    (if \<not> quoted then xheader @ [nl]
     else if prefix ''diff --git'' xheader then
       ''diff --git '' @ quote (isPrintTable E) (OrigName d) @ '' ''
         @ quote (isPrintTable E) (NewName d) @ [nl]
     else if prefix ''rename from '' xheader then
       ''rename from '' @ quote (isPrintTable E) (drop (length ''rename from '') xheader) @ [nl]
     else if prefix ''rename to '' xheader then
       ''rename to '' @ quote (isPrintTable E) (drop (length ''rename to '') xheader) @ [nl]
     else xheader @ [nl])"

definition extendedLines :: "'t Env \<Rightarrow> bool \<Rightarrow> 't FileDiff \<Rightarrow> string" where
  "extendedLines E quoted d = concat (map (extendedLine E quoted d) (Extended d))"

definition fileHeaderLine :: "'t Env \<Rightarrow> bool \<Rightarrow> string \<Rightarrow> string \<Rightarrow> 't option \<Rightarrow> string" where
  "fileHeaderLine E quoted marker name time =
    marker @ (if quoted then quote (isPrintTable E) name else name)
      @ (case time of None \<Rightarrow> [] | Some t \<Rightarrow> [CHR 0x09] @ diffTimeFormat E t) @ [nl]"

section \<open>The order of extended headers\<close>

text \<open>
  Modelled from the spec: \<open>xheadersLessFunc\<close> is not among the sources, only its test
  \<open>Test_xheadersLessFunc\<close> is. Section 4.3 of the specification classifies a line by its
  prefix: \<open>diff --git\<close> first, \<open>old mode\<close> second, \<open>new mode\<close> third, then the remaining
  recognized kinds (similarity, rename and index lines) in no order among themselves, then
  the unrecognized lines, which compare lexically among themselves.
\<close>

definition xheaderRank :: "string \<Rightarrow> nat" where
  "xheaderRank line =
    (if prefix ''diff --git'' line then 0
     else if prefix ''old mode'' line then 1
     else if prefix ''new mode'' line then 2
     else if prefix ''similarity'' line \<or> prefix ''rename'' line \<or> prefix ''index'' line then 3
     else 4)"

text \<open>
  Modelled from the spec: \<open>xheadersLessFunc\<close> itself, the predicate \<open>less(a, b)\<close> of
  section 4.3 on the ranks above.
\<close>

definition xheadersLessFunc :: "string \<Rightarrow> string \<Rightarrow> bool" where
  "xheadersLessFunc a b =
    (xheaderRank a < xheaderRank b \<or> (xheaderRank a = 4 \<and> xheaderRank b = 4 \<and> a < b))"

text \<open>The headers that \<open>Test_xheadersLessFunc\<close> permutes (part_000, lines 33 to 41).\<close>

definition possibleHeaders :: "string list" where
  "possibleHeaders =
    [''old mode 100755'', ''new mode 100644'', ''diff --git a/file1 b/file2'',
     ''similarity index 70%'', ''rename from file1'', ''rename to file2'',
     ''index a9f9a6b..b0e5e4f'']"

section \<open>The filename decoder and the argument splitter\<close>

text \<open>
  Modelled from the spec: \<open>readQuotedFilename\<close> and \<open>parseDiffGitArgs\<close> are not among
  the sources, only their tests are. The decoder is section 4.1 of the specification: after
  the opening double quote every character is copied, a backslash before a double quote
  or a backslash gives that character, the first double quote with no backslash before it
  ends the token, and any other input is malformed. The splitter is section 4.2: a
  quoted argument is decoded; an unquoted first argument ends at the first space, from
  the left, whose remainder is a complete second argument (a quoted token with nothing
  after it, or a non-empty text with no double quote in it); both arguments are not
  empty.
\<close>

datatype decodeError = MalformedToken

fun decodeQuoted :: "string \<Rightarrow> string \<Rightarrow> decodeError + string \<times> string" where
  "decodeQuoted acc [] = Inl MalformedToken"
| "decodeQuoted acc [c] = (if c = dquote then Inr (acc, []) else Inl MalformedToken)"
| "decodeQuoted acc (c # e # rest) =
    (if c = dquote then Inr (acc, e # rest)
     else if c = backslash then
       (if e = dquote \<or> e = backslash then decodeQuoted (acc @ [e]) rest
        else Inl MalformedToken)
     else decodeQuoted (acc @ [c]) (e # rest))"

text \<open>
  Modelled from the spec: \<open>readQuotedFilename\<close>, the decoder of section 4.1: the decoded
  value and the text after the closing quote, or the malformed-token error.
\<close>

definition readQuotedFilename :: "string \<Rightarrow> decodeError + string \<times> string" where
  "readQuotedFilename text =
    (case text of
      [] \<Rightarrow> Inl MalformedToken
    | c # rest \<Rightarrow> if c = dquote then decodeQuoted [] rest else Inl MalformedToken)"

text \<open>
  Modelled from the spec: a complete second argument of section 4.2, one that consumes
  the text exactly, and the scan of an unquoted first argument for the first space that
  has one after it.
\<close>

definition secondArgument :: "string \<Rightarrow> string option" where
  "secondArgument text =
    (if prefix [dquote] text then
       (case readQuotedFilename text of
         Inl err \<Rightarrow> None
       | Inr (value, remainder) \<Rightarrow> if remainder = [] \<and> value \<noteq> [] then Some value else None)
     else if text \<noteq> [] \<and> dquote \<notin> set text then Some text
     else None)"

fun splitUnquoted :: "string \<Rightarrow> string \<Rightarrow> (string \<times> string) option" where
  "splitUnquoted first [] = None"
| "splitUnquoted first (c # rest) =
    (if c = dquote then None
     else if c = CHR '' '' \<and> first \<noteq> [] then
       (case secondArgument rest of
         Some second \<Rightarrow> Some (first, second)
       | None \<Rightarrow> splitUnquoted (first @ [c]) rest)
     else splitUnquoted (first @ [c]) rest)"

text \<open>
  Modelled from the spec: \<open>parseDiffGitArgs\<close>, the splitter of section 4.2: the two names
  and whether the split succeeded.
\<close>

definition parseDiffGitArgs :: "string \<Rightarrow> string \<times> string \<times> bool" where
  "parseDiffGitArgs diffArgs =
    (if prefix [dquote] diffArgs then
       (case readQuotedFilename diffArgs of
         Inl err \<Rightarrow> ([], [], False)
       | Inr (first, remainder) \<Rightarrow>
           (case remainder of
             [] \<Rightarrow> ([], [], False)
           | c # rest \<Rightarrow>
               if c = CHR '' '' \<and> first \<noteq> [] then
                 (case secondArgument rest of
                   Some second \<Rightarrow> (first, second, True)
                 | None \<Rightarrow> ([], [], False))
               else ([], [], False)))
     else
       (case splitUnquoted [] diffArgs of
         Some (first, second) \<Rightarrow> (first, second, True)
       | None \<Rightarrow> ([], [], False)))"

text \<open>
  The tables of \<open>TestParseDiffGitArgs_Success\<close> and \<open>TestParseDiffGitArgs_Unsuccessful\<close>
  (part_000, lines 107 to 118 and 130 to 142): the input and, where the test expects
  success, the two names it expects.
\<close>

definition successTests :: "(string \<times> string \<times> string) list" where
  "successTests =
    [(''aaa bbb'', ''aaa'', ''bbb''),
     ([dquote] @ ''aaa'' @ [dquote] @ '' bbb'', ''aaa'', ''bbb''),
     (''aaa '' @ [dquote] @ ''bbb'' @ [dquote], ''aaa'', ''bbb''),
     ([dquote] @ ''aaa'' @ [dquote] @ '' '' @ [dquote] @ ''bbb'' @ [dquote], ''aaa'', ''bbb''),
     (''1/a 2/z'', ''1/a'', ''2/z''),
     (''1/hello world 2/hello world'', ''1/hello world'', ''2/hello world''),
     ([dquote] @ ''new'' @ [backslash] @ ''nline'' @ [dquote] @ '' and spaces'',
      ''new'' @ [nl] @ ''line'', ''and spaces''),
     (''a/existing file with spaces '' @ [dquote] @ ''b/new, complicated'' @ [backslash]
        @ ''nfilen'' @ [backslash] @ ''303'' @ [backslash] @ ''270me'' @ [dquote],
      ''a/existing file with spaces'',
      ''b/new, complicated'' @ [nl] @ ''filen'' @ [CHR 0xC3, CHR 0xB8] @ ''me'')]"

definition unsuccessfulTests :: "string list" where
  "unsuccessfulTests =
    [[], ''hello_world.txt'', ''word '', '' word'',
     [dquote] @ ''a/bad_quoting b/bad_quoting'',
     ''a/bad_quoting '' @ [dquote] @ ''b/bad_quoting'',
     ''a/bad_quoting b/bad_quoting'' @ [dquote],
     [dquote] @ ''a/bad_quoting b/bad_quoting'' @ [dquote],
     [dquote] @ ''a/bad'' @ [dquote, dquote] @ ''b/bad'' @ [dquote],
     [dquote] @ ''a/bad'' @ [dquote] @ '' '' @ [dquote] @ ''b/bad'' @ [dquote] @ '' ''
       @ [dquote] @ ''c/bad'' @ [dquote],
     ''a/bad '' @ [dquote] @ ''b/bad'' @ [dquote] @ '' '' @ [dquote] @ ''c/bad'' @ [dquote]]"

definition passes :: "string \<times> string \<times> string \<Rightarrow> bool" where
  "passes t = (case t of (input, first, second) \<Rightarrow> parseDiffGitArgs input = (first, second, True))"

section \<open>Example values\<close>

definition sortedHeaders :: "string list" where
  "sortedHeaders =
    [''diff --git a/file1 b/file2'', ''old mode 100755'', ''new mode 100644'',
     ''rename to file2'', ''index a9f9a6b..b0e5e4f'', ''similarity index 70%'',
     ''rename from file1'']"

text \<open>
  A name with a quote, a backslash, control characters, bytes that are not UTF-8, and
  printable and unprintable characters of two, three and four bytes; what \<open>%q\<close> writes
  for it; and a table with the printable ones among them (the euro sign and an emoji).
\<close>

definition quoteInput :: string where
  "quoteInput =
    [CHR ''a'', dquote, backslash, nl, CHR 0x01, CHR 0x7F, CHR 0xFF, CHR 0xC3, CHR 0xB8,
     CHR 0xC2, CHR 0xA0, CHR 0xE2, CHR 0x82, CHR 0xAC, CHR 0xE2, CHR 0x80, CHR 0xA8,
     CHR 0xF0, CHR 0x9F, CHR 0x98, CHR 0x80, CHR 0xF3, CHR 0xA0, CHR 0x80, CHR 0x81,
     CHR 0xC0, CHR 0x80, CHR 0xED, CHR 0xA0, CHR 0x80, CHR 0xE2, CHR 0x82]"

definition quoteOutput :: string where
  "quoteOutput =
    [dquote, CHR ''a'', backslash, dquote, backslash, backslash, backslash, CHR ''n'']
    @ backslash # ''x01'' @ backslash # ''x7f'' @ backslash # ''xff''
    @ [CHR 0xC3, CHR 0xB8] @ backslash # ''u00a0'' @ [CHR 0xE2, CHR 0x82, CHR 0xAC]
    @ backslash # ''u2028'' @ [CHR 0xF0, CHR 0x9F, CHR 0x98, CHR 0x80]
    @ backslash # ''U000e0001'' @ backslash # ''xc0'' @ backslash # ''x80''
    @ backslash # ''xed'' @ backslash # ''xa0'' @ backslash # ''x80''
    @ backslash # ''xe2'' @ backslash # ''x82'' @ [dquote]"

definition printableTable :: "nat \<Rightarrow> bool" where
  "printableTable r = (r = 0x20AC \<or> r = 0x1F600)"

definition hunkA :: Hunk where
  "hunkA = \<lparr>OrigStartLine = 1, OrigLines = 2, OrigNoNewlineAt = 3, NewStartLine = 10,
     NewLines = 12, Section = ''func f'', Body = [CHR ''-'', CHR ''a'', nl, CHR ''+'', CHR ''b'']\<rparr>"

definition hunkB :: Hunk where
  "hunkB = \<lparr>OrigStartLine = 20, OrigLines = 1, OrigNoNewlineAt = 0, NewStartLine = 21,
     NewLines = 1, Section = [], Body = [CHR '' '', CHR ''c'', nl]\<rparr>"


definition hunkBad :: Hunk where
  "hunkBad = \<lparr>OrigStartLine = 1, OrigLines = 1, OrigNoNewlineAt = 9, NewStartLine = 1,
     NewLines = 1, Section = [], Body = [CHR ''+'', CHR ''x'', nl]\<rparr>"

text \<open>
  An environment for the examples: times are numbers of seconds, printed in decimal, and
  the two path functions are right for a name without a slash.
\<close>

definition envA :: "nat Env" where
  "envA = \<lparr>isPrintTable = (\<lambda>r. True), filepathDir = (\<lambda>p. ''.''), filepathBase = (\<lambda>p. p),
     onlyInMessage = (\<lambda>dir base. ''Only in '' @ dir @ '': '' @ base @ [nl]),
     diffTimeFormat = showNat\<rparr>"

definition deleted :: "nat FileDiff" where
  "deleted = \<lparr>OrigName = ''old.txt'', OrigTime = Some 7, NewName = [], NewTime = None,
     Extended = [''diff --git a/old.txt b/old.txt'', ''deleted file mode 100644''],
     Hunks = Some [Some hunkBad]\<rparr>"

definition renamed :: "nat FileDiff" where
  "renamed = \<lparr>OrigName = ''a b'', OrigTime = None, NewName = ''c'', NewTime = Some 5,
     Extended = [''rename from a b'', ''rename to c''], Hunks = None\<rparr>"

definition changed :: "nat FileDiff" where
  "changed = \<lparr>OrigName = ''f'', OrigTime = None, NewName = ''f'', NewTime = None,
     Extended = [], Hunks = Some [Some hunkB]\<rparr>"

definition broken :: "nat FileDiff" where
  "broken = \<lparr>OrigName = ''g'', OrigTime = None, NewName = ''g'', NewTime = None,
     Extended = [], Hunks = Some [Some hunkBad]\<rparr>"

section \<open>Properties of the hunk printer\<close>

lemma printHunk_in_range:
  assumes "OrigNoNewlineAt h \<le> length (Body h)"
  shows "printHunk buf h = Inr (buf @ hunkRendering h)"
  using assms
  by (simp add: printHunk_def hunkRendering_def rangeHeader_def bodyWithMarker_def
      trailingMarker_def markerLine_def printNoNewlineMessage_def sliceTo_def sliceFrom_def
      Let_def)

lemma printHunk_out_of_range:
  assumes "length (Body h) < OrigNoNewlineAt h"
  shows "printHunk buf h = Inl SliceBoundsOutOfRange"
  using assms by (simp add: printHunk_def sliceTo_def Let_def)

lemma PrintHunks_loop_in_range:
  assumes "\<forall>h \<in> set hs. OrigNoNewlineAt h \<le> length (Body h)"
  shows "PrintHunks_loop buf (map Some hs) = Inr (buf @ concat (map hunkRendering hs))"
  using assms
  by (induction hs arbitrary: buf) (simp_all add: printHunk_in_range)

lemma PrintHunks_loop_out_of_range:
  assumes "\<exists>h \<in> set hs. length (Body h) < OrigNoNewlineAt h"
  shows "PrintHunks_loop buf (map Some hs) = Inl SliceBoundsOutOfRange"
  using assms
proof (induction hs arbitrary: buf)
  case Nil
  then show ?case by simp
next
  case (Cons h hs)
  show ?case
  proof (cases "length (Body h) < OrigNoNewlineAt h")
    case True
    then show ?thesis by (simp add: printHunk_out_of_range)
  next
    case False
    with Cons.prems have "\<exists>g \<in> set hs. length (Body g) < OrigNoNewlineAt g" by auto
    with False show ?thesis by (simp add: printHunk_in_range Cons.IH)
  qed
qed








text \<open>
  Claim C10. \<open>PrintHunks\<close> slices the body at \<open>OrigNoNewlineAt\<close> with no check of its own:
  it returns exactly when every hunk's offset is at most the length of its body, and
  then both slice expressions are in range; it panics with a slice out of range exactly
  when some hunk's offset exceeds the length of its body.
\<close>

theorem PrintHunks_slice_bounds:
  "((\<exists>out. PrintHunks (map Some hs) = Inr out) \<longleftrightarrow>
      (\<forall>h \<in> set hs. OrigNoNewlineAt h \<le> length (Body h))) \<and>
   (PrintHunks (map Some hs) = Inl SliceBoundsOutOfRange \<longleftrightarrow>
      (\<exists>h \<in> set hs. length (Body h) < OrigNoNewlineAt h)) \<and>
   (\<forall>h \<in> set hs. OrigNoNewlineAt h \<le> length (Body h) \<longrightarrow>
      sliceTo (Body h) (OrigNoNewlineAt h) = Inr (take (OrigNoNewlineAt h) (Body h)) \<and>
      sliceFrom (Body h) (OrigNoNewlineAt h) = Inr (drop (OrigNoNewlineAt h) (Body h)))"
proof -
  have ok: "PrintHunks (map Some hs) = Inr (concat (map hunkRendering hs))"
    if "\<forall>h \<in> set hs. OrigNoNewlineAt h \<le> length (Body h)"
    using PrintHunks_loop_in_range [OF that, of "[]"] by (simp add: PrintHunks_def)
  have bad: "PrintHunks (map Some hs) = Inl SliceBoundsOutOfRange"
    if "\<exists>h \<in> set hs. length (Body h) < OrigNoNewlineAt h"
    using PrintHunks_loop_out_of_range [OF that, of "[]"] by (simp add: PrintHunks_def)
  have split: "(\<forall>h \<in> set hs. OrigNoNewlineAt h \<le> length (Body h)) \<or>
      (\<exists>h \<in> set hs. length (Body h) < OrigNoNewlineAt h)"
    by (meson not_le)
  have "(\<exists>out. PrintHunks (map Some hs) = Inr out) \<longleftrightarrow>
      (\<forall>h \<in> set hs. OrigNoNewlineAt h \<le> length (Body h))"
    using ok bad split by fastforce
  moreover have "PrintHunks (map Some hs) = Inl SliceBoundsOutOfRange \<longleftrightarrow>
      (\<exists>h \<in> set hs. length (Body h) < OrigNoNewlineAt h)"
    using ok bad split by fastforce
  ultimately show ?thesis
    by (simp add: sliceTo_def sliceFrom_def)
qed

theorem PrintHunks_slice_bounds_witness:
  "OrigNoNewlineAt hunkA \<le> length (Body hunkA)
   \<and> (\<exists>out. PrintHunks (map Some [hunkA]) = Inr out)
   \<and> sliceTo (Body hunkA) (OrigNoNewlineAt hunkA) = Inr [CHR ''-'', CHR ''a'', nl]
   \<and> sliceFrom (Body hunkA) (OrigNoNewlineAt hunkA) = Inr ''+b''
   \<and> length (Body hunkBad) < OrigNoNewlineAt hunkBad
   \<and> PrintHunks (map Some [hunkA, hunkBad]) = Inl SliceBoundsOutOfRange"
  using PrintHunks_slice_bounds [of "[hunkA]"] PrintHunks_slice_bounds [of "[hunkA, hunkBad]"]
  by (simp add: hunkA_def hunkBad_def)

section \<open>Properties of quoting\<close>

lemma of_char_34: "(of_char c :: nat) = 34 \<Longrightarrow> c = CHR 0x22"
proof -
  assume "(of_char c :: nat) = 34"
  then have "(of_char c :: nat) = of_char (CHR 0x22)" by simp
  then show ?thesis by (simp only: of_char_eq_iff)
qed

lemma of_char_92: "(of_char c :: nat) = 92 \<Longrightarrow> c = CHR 0x5C"
proof -
  assume "(of_char c :: nat) = 92"
  then have "(of_char c :: nat) = of_char (CHR 0x5C)" by simp
  then show ?thesis by (simp only: of_char_eq_iff)
qed

lemma hexDigit_table: "map hexDigit [0..<16] = ''0123456789abcdef''"
  by code_simp

lemma lowerhex_hexDigit: "lowerhex d = hexDigit (d mod 16)"
proof -
  have k: "d mod 16 < 16" by simp
  have "map hexDigit [0..<16] ! (d mod 16) = hexDigit ([0..<16] ! (d mod 16))"
    using k by (simp only: nth_map length_upt)
  then show ?thesis using k by (simp only: hexDigit_table nth_upt lowerhex_def) simp
qed

lemma hexDigits_snoc: "hexDigits (Suc k) r = hexDigits k (r div 16) @ [lowerhex (r mod 16)]"
proof (induction k)
  case 0
  show ?case by simp
next
  case (Suc k)
  have "hexDigits (Suc (Suc k)) r = lowerhex ((r div 16 ^ Suc k) mod 16) # hexDigits (Suc k) r"
    by simp
  also have "\<dots> = lowerhex ((r div 16 ^ Suc k) mod 16) # hexDigits k (r div 16) @ [lowerhex (r mod 16)]"
    by (simp only: Suc.IH)
  also have "r div 16 ^ Suc k = (r div 16) div 16 ^ k"
    by (simp add: div_mult2_eq)
  finally show ?case by simp
qed

lemma hexDigits_hexNumber: "hexDigits k r = hexNumber k r"
proof (induction k arbitrary: r)
  case 0
  show ?case by simp
next
  case (Suc k)
  show ?case
    by (simp only: hexDigits_snoc hexNumber.simps Suc.IH lowerhex_hexDigit mod_mod_trivial)
qed

lemma of_char_less_256: "(of_char c :: nat) < 256"
proof -
  have "(of_char c :: nat) mod 256 < 256" by simp
  then show ?thesis by (simp only: of_char_mod_256)
qed

lemma hexNumber_2: "hexNumber 2 b = [hexDigit (b div 16 mod 16), hexDigit (b mod 16)]"
proof -
  have "hexNumber (Suc (Suc 0)) b = [hexDigit (b div 16 mod 16), hexDigit (b mod 16)]"
    by (simp only: hexNumber.simps append_Nil append_Cons)
  then show ?thesis by (simp only: numeral_2_eq_2)
qed

lemma hexEscape_eq:
  "[backslash, CHR ''x'', lowerhex (of_char c div 16), lowerhex (of_char c mod 16)] = hexEscape c"
proof -
  have "(of_char c :: nat) div 16 < 16" using of_char_less_256 [of c] by arith
  then have "(of_char c :: nat) div 16 mod 16 = of_char c div 16" by simp
  then show ?thesis
    by (simp add: hexEscape_def hexNumber_2 lowerhex_hexDigit)
qed


lemma appendEscapedRune_ascii:
  assumes "(of_char c :: nat) < 128"
  shows "appendEscapedRune tbl buf (of_char c) = buf @ escapeByte c"
  using assms
  unfolding escapeByte_def hexEscape_eq [symmetric]
  by (simp add: appendEscapedRune_def IsPrint_def AppendRune_def Let_def
      dquote_def backslash_def of_char_34 of_char_92)

lemma appendQuoted_loop_ascii:
  assumes "\<forall>c \<in> set s. (of_char c :: nat) < 128"
  shows "appendQuoted_loop tbl buf s = buf @ concat (map escapeByte s)"
  using assms
proof (induction s arbitrary: buf)
  case Nil
  then show ?case by (simp add: appendQuoted_loop.simps)
next
  case (Cons c s)
  then have c: "(of_char c :: nat) < 128" and rest: "\<forall>c \<in> set s. (of_char c :: nat) < 128"
    by simp_all
  have "appendQuoted_loop tbl buf (c # s) =
      appendQuoted_loop tbl (appendEscapedRune tbl buf (of_char c)) s"
    using c by (subst appendQuoted_loop.simps) (simp add: Let_def RuneError_def)
  then show ?case
    using Cons.IH [OF rest] by (simp add: appendEscapedRune_ascii [OF c])
qed

lemma appendEscapedRune_buf: "appendEscapedRune tbl buf r = buf @ appendEscapedRune tbl [] r"
  by (simp add: appendEscapedRune_def AppendRune_def)

lemma appendQuoted_loop_step:
  assumes "s \<noteq> []"
  shows "appendQuoted_loop tbl buf s =
    appendQuoted_loop tbl (buf @ fst (runeStep tbl s)) (drop (snd (runeStep tbl s)) s)"
  using assms
  by (subst appendQuoted_loop.simps)
    (simp add: runeStep_def Let_def appendEscapedRune_buf [of tbl buf])

lemma seqSize_cases: "seqSize s0 = 2 \<or> seqSize s0 = 3 \<or> seqSize s0 = 4"
  by (simp add: seqSize_def)

lemma DecodeRuneInString_le:
  assumes "s \<noteq> []"
  shows "0 < snd (DecodeRuneInString s) \<and> snd (DecodeRuneInString s) \<le> length s"
proof -
  from assms have len: "0 < length s" by simp
  from seqSize_cases [of "of_char (s ! 0)"] show ?thesis
  proof (elim disjE)
    assume "seqSize (of_char (s ! 0)) = 2"
    with len show ?thesis by (simp add: DecodeRuneInString_def Let_def Suc_le_eq)
  next
    assume "seqSize (of_char (s ! 0)) = 3"
    with len show ?thesis by (simp add: DecodeRuneInString_def Let_def Suc_le_eq)
  next
    assume "seqSize (of_char (s ! 0)) = 4"
    with len show ?thesis by (simp add: DecodeRuneInString_def Let_def Suc_le_eq)
  qed
qed

lemma runeStep_width:
  assumes "s \<noteq> []"
  shows "0 < snd (runeStep tbl s) \<and> snd (runeStep tbl s) \<le> length s"
proof -
  from assms have "0 < length s" by simp
  then show ?thesis
    using DecodeRuneInString_le [OF assms]
    by (simp add: runeStep_def Let_def)
qed


lemma appendQuoted_loop_buf:
  "appendQuoted_loop tbl buf s = buf @ appendQuoted_loop tbl [] s"
proof (induction "length s" arbitrary: s buf rule: less_induct)
  case less
  show ?case
  proof (cases "s = []")
    case True
    then show ?thesis by (simp add: appendQuoted_loop.simps)
  next
    case False
    let ?out = "fst (runeStep tbl s)" and ?rest = "drop (snd (runeStep tbl s)) s"
    from runeStep_width [OF False, of tbl] False have shorter: "length ?rest < length s"
      by simp
    have "appendQuoted_loop tbl buf s = appendQuoted_loop tbl (buf @ ?out) ?rest"
      by (rule appendQuoted_loop_step [OF False])
    also have "\<dots> = (buf @ ?out) @ appendQuoted_loop tbl [] ?rest"
      by (rule less [OF shorter])
    also have "\<dots> = buf @ (?out @ appendQuoted_loop tbl [] ?rest)"
      by simp
    also have "?out @ appendQuoted_loop tbl [] ?rest = appendQuoted_loop tbl ([] @ ?out) ?rest"
      using less [OF shorter, of ?out] by simp
    also have "\<dots> = appendQuoted_loop tbl [] s"
      by (rule appendQuoted_loop_step [OF False, symmetric])
    finally show ?thesis .
  qed
qed

lemma runeStep_ascii:
  assumes "(of_char c :: nat) < 128"
  shows "runeStep tbl (c # post) = (escapeByte c, 1)"
  using assms appendEscapedRune_ascii [OF assms, of tbl "[]"]
  by (simp add: runeStep_def Let_def RuneError_def)

lemma quoteBody_step:
  assumes "s \<noteq> []"
  shows "quoteBody tbl s = fst (runeStep tbl s) @ quoteBody tbl (drop (snd (runeStep tbl s)) s)"
  using appendQuoted_loop_step [OF assms, of tbl "[]"]
    appendQuoted_loop_buf [of tbl "fst (runeStep tbl s)"]
  by (simp add: quoteBody_def)

lemma quote_ascii:
  assumes "inp \<noteq> ''/dev/null''" and "\<not> prefix [dquote] inp"
    and "\<forall>c \<in> set inp. (of_char c :: nat) < 128"
  shows "quote tbl inp = [dquote] @ concat (map escapeByte inp) @ [dquote]"
  using assms by (simp add: quote_def Sprintf_q_def appendQuoted_loop_ascii)

subsection \<open>The loop of \<open>%q\<close> writes the units of its input\<close>

lemma div_mod_base:
  fixes x c k :: nat
  assumes "c < k"
  shows "(x * k + c) div k = x" and "(x * k + c) mod k = c"
  using assms by simp_all

lemma two_byte_value:
  fixes n0 n1 :: nat
  assumes "194 \<le> n0" "n0 \<le> 223" "128 \<le> n1" "n1 \<le> 191"
  shows "128 \<le> (n0 - 192) * 64 + (n1 - 128)"
    and "(n0 - 192) * 64 + (n1 - 128) \<le> 2047"
    and "192 + ((n0 - 192) * 64 + (n1 - 128)) div 64 = n0"
    and "128 + ((n0 - 192) * 64 + (n1 - 128)) mod 64 = n1"
proof -
  define a c where "a = n0 - 192" and "c = n1 - 128"
  from assms have a: "2 \<le> a" "a \<le> 31" "192 + a = n0" and c: "c < 64" "128 + c = n1"
    by (simp_all add: a_def c_def)
  show "128 \<le> (n0 - 192) * 64 + (n1 - 128)" "(n0 - 192) * 64 + (n1 - 128) \<le> 2047"
    using a c unfolding a_def [symmetric] c_def [symmetric] by linarith+
  show "192 + ((n0 - 192) * 64 + (n1 - 128)) div 64 = n0"
    "128 + ((n0 - 192) * 64 + (n1 - 128)) mod 64 = n1"
    unfolding a_def [symmetric] c_def [symmetric] using a c by (simp_all add: div_mod_base)
qed

lemma three_byte_value:
  fixes n0 n1 n2 :: nat
  assumes "224 \<le> n0" "n0 \<le> 239" "128 \<le> n1" "n1 \<le> 191" "128 \<le> n2" "n2 \<le> 191"
  shows "(n0 - 224) * 4096 + (n1 - 128) * 64 + (n2 - 128) \<le> 65535"
    and "224 + ((n0 - 224) * 4096 + (n1 - 128) * 64 + (n2 - 128)) div 4096 = n0"
    and "128 + ((n0 - 224) * 4096 + (n1 - 128) * 64 + (n2 - 128)) div 64 mod 64 = n1"
    and "128 + ((n0 - 224) * 4096 + (n1 - 128) * 64 + (n2 - 128)) mod 64 = n2"
    and "n0 = 224 \<longrightarrow> 160 \<le> n1 \<Longrightarrow> 2048 \<le> (n0 - 224) * 4096 + (n1 - 128) * 64 + (n2 - 128)"
    and "n0 = 237 \<longrightarrow> n1 \<le> 159 \<Longrightarrow>
         (n0 - 224) * 4096 + (n1 - 128) * 64 + (n2 - 128) < 55296
         \<or> 57343 < (n0 - 224) * 4096 + (n1 - 128) * 64 + (n2 - 128)"
proof -
  define a b c where "a = n0 - 224" and "b = n1 - 128" and "c = n2 - 128"
  from assms have a: "a \<le> 15" "224 + a = n0" and b: "b < 64" "128 + b = n1"
    and c: "c < 64" "128 + c = n2"
    by (simp_all add: a_def b_def c_def)
  have low: "b * 64 + c < 4096" using b(1) c(1) by linarith
  have e1: "a * 4096 + b * 64 + c = a * 4096 + (b * 64 + c)" by simp
  have e2: "a * 4096 + b * 64 + c = (a * 64 + b) * 64 + c" by simp
  have d1: "(a * 4096 + b * 64 + c) div 4096 = a"
    unfolding e1 using low by (rule div_mod_base(1))
  have d2: "(a * 4096 + b * 64 + c) div 64 = a * 64 + b"
    unfolding e2 using c(1) by (rule div_mod_base(1))
  have d3: "(a * 4096 + b * 64 + c) mod 64 = c"
    unfolding e2 using c(1) by (rule div_mod_base(2))
  have d4: "(a * 64 + b) mod 64 = b" using b(1) by (rule div_mod_base(2))
  show "(n0 - 224) * 4096 + (n1 - 128) * 64 + (n2 - 128) \<le> 65535"
    unfolding a_def [symmetric] b_def [symmetric] c_def [symmetric]
    using a(1) b(1) c(1) by linarith
  show "224 + ((n0 - 224) * 4096 + (n1 - 128) * 64 + (n2 - 128)) div 4096 = n0"
    unfolding a_def [symmetric] b_def [symmetric] c_def [symmetric] d1 by (rule a(2))
  show "128 + ((n0 - 224) * 4096 + (n1 - 128) * 64 + (n2 - 128)) div 64 mod 64 = n1"
    unfolding a_def [symmetric] b_def [symmetric] c_def [symmetric] d2 d4 by (rule b(2))
  show "128 + ((n0 - 224) * 4096 + (n1 - 128) * 64 + (n2 - 128)) mod 64 = n2"
    unfolding a_def [symmetric] b_def [symmetric] c_def [symmetric] d3 by (rule c(2))
  show "2048 \<le> (n0 - 224) * 4096 + (n1 - 128) * 64 + (n2 - 128)" if "n0 = 224 \<longrightarrow> 160 \<le> n1"
  proof (cases "n0 = 224")
    case True
    with that have "32 \<le> b" by (simp add: b_def)
    then show ?thesis unfolding a_def [symmetric] b_def [symmetric] c_def [symmetric] by linarith
  next
    case False
    with assms(1) have "1 \<le> a" by (simp add: a_def)
    then show ?thesis unfolding a_def [symmetric] b_def [symmetric] c_def [symmetric] by linarith
  qed
  show "(n0 - 224) * 4096 + (n1 - 128) * 64 + (n2 - 128) < 55296
         \<or> 57343 < (n0 - 224) * 4096 + (n1 - 128) * 64 + (n2 - 128)" if "n0 = 237 \<longrightarrow> n1 \<le> 159"
  proof -
    consider "a \<le> 12" | "a = 13" | "14 \<le> a" by linarith
    then show ?thesis
    proof cases
      case 1
      then show ?thesis unfolding a_def [symmetric] b_def [symmetric] c_def [symmetric]
        using b(1) c(1) by linarith
    next
      case 2
      with a(2) have "n0 = 237" by simp
      with that have "b \<le> 31" by (simp add: b_def)
      with 2 show ?thesis unfolding a_def [symmetric] b_def [symmetric] c_def [symmetric]
        using c(1) by linarith
    next
      case 3
      then show ?thesis unfolding a_def [symmetric] b_def [symmetric] c_def [symmetric]
        by linarith
    qed
  qed
qed


lemma four_byte_value:
  fixes n0 n1 n2 n3 :: nat
  assumes "240 \<le> n0" "n0 \<le> 244" "128 \<le> n1" "n1 \<le> 191" "128 \<le> n2" "n2 \<le> 191"
    "128 \<le> n3" "n3 \<le> 191"
  shows "240 + ((n0 - 240) * 262144 + (n1 - 128) * 4096 + (n2 - 128) * 64 + (n3 - 128)) div 262144 = n0"
    and "128 + ((n0 - 240) * 262144 + (n1 - 128) * 4096 + (n2 - 128) * 64 + (n3 - 128)) div 4096 mod 64 = n1"
    and "128 + ((n0 - 240) * 262144 + (n1 - 128) * 4096 + (n2 - 128) * 64 + (n3 - 128)) div 64 mod 64 = n2"
    and "128 + ((n0 - 240) * 262144 + (n1 - 128) * 4096 + (n2 - 128) * 64 + (n3 - 128)) mod 64 = n3"
    and "n0 = 240 \<longrightarrow> 144 \<le> n1 \<Longrightarrow>
         65536 \<le> (n0 - 240) * 262144 + (n1 - 128) * 4096 + (n2 - 128) * 64 + (n3 - 128)"
    and "n0 = 244 \<longrightarrow> n1 \<le> 143 \<Longrightarrow>
         (n0 - 240) * 262144 + (n1 - 128) * 4096 + (n2 - 128) * 64 + (n3 - 128) \<le> 1114111"
proof -
  define a b c d where "a = n0 - 240" and "b = n1 - 128" and "c = n2 - 128" and "d = n3 - 128"
  note fold = a_def [symmetric] b_def [symmetric] c_def [symmetric] d_def [symmetric]
  from assms have a: "a \<le> 4" "240 + a = n0" and b: "b < 64" "128 + b = n1"
    and c: "c < 64" "128 + c = n2" and d: "d < 64" "128 + d = n3"
    by (simp_all add: a_def b_def c_def d_def)
  have low1: "b * 4096 + c * 64 + d < 262144" using b(1) c(1) d(1) by linarith
  have low2: "c * 64 + d < 4096" using c(1) d(1) by linarith
  have e1: "a * 262144 + b * 4096 + c * 64 + d = a * 262144 + (b * 4096 + c * 64 + d)" by simp
  have e2: "a * 262144 + b * 4096 + c * 64 + d = (a * 64 + b) * 4096 + (c * 64 + d)" by simp
  have e3: "a * 262144 + b * 4096 + c * 64 + d = (a * 4096 + b * 64 + c) * 64 + d" by simp
  have e4: "a * 4096 + b * 64 + c = (a * 64 + b) * 64 + c" by simp
  have d1: "(a * 262144 + b * 4096 + c * 64 + d) div 262144 = a"
    unfolding e1 using low1 by (rule div_mod_base(1))
  have d2: "(a * 262144 + b * 4096 + c * 64 + d) div 4096 = a * 64 + b"
    unfolding e2 using low2 by (rule div_mod_base(1))
  have d3: "(a * 262144 + b * 4096 + c * 64 + d) div 64 = a * 4096 + b * 64 + c"
    unfolding e3 using d(1) by (rule div_mod_base(1))
  have d4: "(a * 262144 + b * 4096 + c * 64 + d) mod 64 = d"
    unfolding e3 using d(1) by (rule div_mod_base(2))
  have d5: "(a * 64 + b) mod 64 = b" using b(1) by (rule div_mod_base(2))
  have d6: "(a * 4096 + b * 64 + c) mod 64 = c"
    unfolding e4 using c(1) by (rule div_mod_base(2))
  show "240 + ((n0 - 240) * 262144 + (n1 - 128) * 4096 + (n2 - 128) * 64 + (n3 - 128)) div 262144 = n0"
    unfolding fold d1 by (rule a(2))
  show "128 + ((n0 - 240) * 262144 + (n1 - 128) * 4096 + (n2 - 128) * 64 + (n3 - 128)) div 4096 mod 64 = n1"
    unfolding fold d2 d5 by (rule b(2))
  show "128 + ((n0 - 240) * 262144 + (n1 - 128) * 4096 + (n2 - 128) * 64 + (n3 - 128)) div 64 mod 64 = n2"
    unfolding fold d3 d6 by (rule c(2))
  show "128 + ((n0 - 240) * 262144 + (n1 - 128) * 4096 + (n2 - 128) * 64 + (n3 - 128)) mod 64 = n3"
    unfolding fold d4 by (rule d(2))
  show "65536 \<le> (n0 - 240) * 262144 + (n1 - 128) * 4096 + (n2 - 128) * 64 + (n3 - 128)"
    if "n0 = 240 \<longrightarrow> 144 \<le> n1"
  proof (cases "n0 = 240")
    case True
    with that have "16 \<le> b" by (simp add: b_def)
    then show ?thesis unfolding fold by linarith
  next
    case False
    with assms(1) have "1 \<le> a" by (simp add: a_def)
    then show ?thesis unfolding fold by linarith
  qed
  show "(n0 - 240) * 262144 + (n1 - 128) * 4096 + (n2 - 128) * 64 + (n3 - 128) \<le> 1114111"
    if "n0 = 244 \<longrightarrow> n1 \<le> 143"
  proof (cases "n0 = 244")
    case True
    with that have "b \<le> 15" by (simp add: b_def)
    then show ?thesis unfolding fold using a(1) c(1) d(1) by linarith
  next
    case False
    with assms(2) a(2) have "a \<le> 3" by linarith
    then show ?thesis unfolding fold using b(1) c(1) d(1) by linarith
  qed
qed


lemma leading_payload:
  fixes n :: nat
  shows "192 \<le> n \<Longrightarrow> n \<le> 223 \<Longrightarrow> n mod 32 = n - 192"
    and "224 \<le> n \<Longrightarrow> n \<le> 239 \<Longrightarrow> n mod 16 = n - 224"
    and "240 \<le> n \<Longrightarrow> n \<le> 247 \<Longrightarrow> n mod 8 = n - 240"
    and "128 \<le> n \<Longrightarrow> n \<le> 191 \<Longrightarrow> n mod 64 = n - 128"
proof -
  have base: "(x * k + c) mod k = c" if "c < k" for x c k :: nat using that by simp
  show "n mod 32 = n - 192" if "192 \<le> n" "n \<le> 223"
  proof -
    from that have "n = 6 * 32 + (n - 192)" "n - 192 < 32" by simp_all
    then show ?thesis using base [of "n - 192" 32 6] by simp
  qed
  show "n mod 16 = n - 224" if "224 \<le> n" "n \<le> 239"
  proof -
    from that have "n = 14 * 16 + (n - 224)" "n - 224 < 16" by simp_all
    then show ?thesis using base [of "n - 224" 16 14] by simp
  qed
  show "n mod 8 = n - 240" if "240 \<le> n" "n \<le> 247"
  proof -
    from that have "n = 30 * 8 + (n - 240)" "n - 240 < 8" by simp_all
    then show ?thesis using base [of "n - 240" 8 30] by simp
  qed
  show "n mod 64 = n - 128" if "128 \<le> n" "n \<le> 191"
  proof -
    from that have "n = 2 * 64 + (n - 128)" "n - 128 < 64" by simp_all
    then show ?thesis using base [of "n - 128" 64 2] by simp
  qed
qed


lemma wellFormed2_range:
  assumes "wellFormed2 b0 b1"
  shows "194 \<le> (of_char b0 :: nat)" "(of_char b0 :: nat) \<le> 223"
    "128 \<le> (of_char b1 :: nat)" "(of_char b1 :: nat) \<le> 191"
  using assms by (simp_all add: wellFormed2_def continuation_def)

lemma wellFormed3_range:
  assumes "wellFormed3 b0 b1 b2"
  shows "224 \<le> (of_char b0 :: nat)" "(of_char b0 :: nat) \<le> 239"
    "128 \<le> (of_char b1 :: nat)" "(of_char b1 :: nat) \<le> 191"
    "128 \<le> (of_char b2 :: nat)" "(of_char b2 :: nat) \<le> 191"
    "(of_char b0 :: nat) = 224 \<longrightarrow> 160 \<le> (of_char b1 :: nat)"
    "(of_char b0 :: nat) = 237 \<longrightarrow> (of_char b1 :: nat) \<le> 159"
  using assms by (auto simp add: wellFormed3_def continuation_def)

lemma wellFormed4_range:
  assumes "wellFormed4 b0 b1 b2 b3"
  shows "240 \<le> (of_char b0 :: nat)" "(of_char b0 :: nat) \<le> 244"
    "128 \<le> (of_char b1 :: nat)" "(of_char b1 :: nat) \<le> 191"
    "128 \<le> (of_char b2 :: nat)" "(of_char b2 :: nat) \<le> 191"
    "128 \<le> (of_char b3 :: nat)" "(of_char b3 :: nat) \<le> 191"
    "(of_char b0 :: nat) = 240 \<longrightarrow> 144 \<le> (of_char b1 :: nat)"
    "(of_char b0 :: nat) = 244 \<longrightarrow> (of_char b1 :: nat) \<le> 143"
  using assms by (auto simp add: wellFormed4_def continuation_def)

lemma accept_range:
  fixes n0 n1 :: nat
  shows "n0 = 224 \<longrightarrow> 160 \<le> n1 \<Longrightarrow> n0 = 237 \<longrightarrow> n1 \<le> 159 \<Longrightarrow> 224 \<le> n0 \<Longrightarrow> n0 \<le> 239 \<Longrightarrow>
      128 \<le> n1 \<Longrightarrow> n1 \<le> 191 \<Longrightarrow> \<not> n1 < acceptLo n0 \<and> \<not> acceptHi n0 < n1"
    and "n0 = 240 \<longrightarrow> 144 \<le> n1 \<Longrightarrow> n0 = 244 \<longrightarrow> n1 \<le> 143 \<Longrightarrow> 240 \<le> n0 \<Longrightarrow> n0 \<le> 244 \<Longrightarrow>
      128 \<le> n1 \<Longrightarrow> n1 \<le> 191 \<Longrightarrow> \<not> n1 < acceptLo n0 \<and> \<not> acceptHi n0 < n1"
  by (auto simp add: acceptLo_def acceptHi_def)

lemma DecodeRuneInString_two:
  assumes "wellFormed2 b0 b1"
  shows "DecodeRuneInString (b0 # b1 # s) = (scalarValue [b0, b1], 2)"
proof -
  note r = wellFormed2_range [OF assms]
  from r(1,2) have sz: "seqSize (of_char b0) = 2" and lo: "acceptLo (of_char b0) = 128"
    and hi: "acceptHi (of_char b0) = 191"
    by (simp_all add: seqSize_def acceptLo_def acceptHi_def)
  from r(1,2) have m0: "(of_char b0 :: nat) mod 32 = of_char b0 - 192" by (simp add: leading_payload(1))
  have m1: "(of_char b1 :: nat) mod 64 = of_char b1 - 128" by (rule leading_payload(4) [OF r(3,4)])
  from r show ?thesis
    by (simp add: DecodeRuneInString_def Let_def sz lo hi m0 m1 scalarValue_def)
qed

lemma DecodeRuneInString_three:
  assumes "wellFormed3 b0 b1 b2"
  shows "DecodeRuneInString (b0 # b1 # b2 # s) = (scalarValue [b0, b1, b2], 3)"
proof -
  note r = wellFormed3_range [OF assms]
  from r(1,2) have sz: "seqSize (of_char b0) = 3" by (simp add: seqSize_def)
  have acc: "\<not> (of_char b1 :: nat) < acceptLo (of_char b0)"
    "\<not> acceptHi (of_char b0) < (of_char b1 :: nat)"
    using accept_range(1) [OF r(7) r(8) r(1) r(2) r(3) r(4)] by simp_all
  have m0: "(of_char b0 :: nat) mod 16 = of_char b0 - 224" by (rule leading_payload(2) [OF r(1,2)])
  have m1: "(of_char b1 :: nat) mod 64 = of_char b1 - 128" by (rule leading_payload(4) [OF r(3,4)])
  have m2: "(of_char b2 :: nat) mod 64 = of_char b2 - 128" by (rule leading_payload(4) [OF r(5,6)])
  from r(1-6) show ?thesis
    by (simp add: DecodeRuneInString_def Let_def sz acc m0 m1 m2 scalarValue_def)
qed

lemma DecodeRuneInString_four:
  assumes "wellFormed4 b0 b1 b2 b3"
  shows "DecodeRuneInString (b0 # b1 # b2 # b3 # s) = (scalarValue [b0, b1, b2, b3], 4)"
proof -
  note r = wellFormed4_range [OF assms]
  from r(1,2) have sz: "seqSize (of_char b0) = 4" by (simp add: seqSize_def)
  have acc: "\<not> (of_char b1 :: nat) < acceptLo (of_char b0)"
    "\<not> acceptHi (of_char b0) < (of_char b1 :: nat)"
    using accept_range(2) [OF r(9) r(10) r(1) r(2) r(3) r(4)] by simp_all
  from r(1,2) have m0: "(of_char b0 :: nat) mod 8 = of_char b0 - 240" by (simp add: leading_payload(3))
  have m1: "(of_char b1 :: nat) mod 64 = of_char b1 - 128" by (rule leading_payload(4) [OF r(3,4)])
  have m2: "(of_char b2 :: nat) mod 64 = of_char b2 - 128" by (rule leading_payload(4) [OF r(5,6)])
  have m3: "(of_char b3 :: nat) mod 64 = of_char b3 - 128" by (rule leading_payload(4) [OF r(7,8)])
  from r(1-8) show ?thesis
    by (simp add: DecodeRuneInString_def Let_def sz acc m0 m1 m2 m3 scalarValue_def)
qed


lemma DecodeRuneInString_bad_lead:
  assumes "128 \<le> (of_char b0 :: nat)"
    and "(of_char b0 :: nat) < 194 \<or> 244 < (of_char b0 :: nat)"
  shows "DecodeRuneInString (b0 # s) = (RuneError, 1)"
  using assms by (auto simp add: DecodeRuneInString_def Let_def)

lemma DecodeRuneInString_short:
  assumes "194 \<le> (of_char b0 :: nat)" and "(of_char b0 :: nat) \<le> 244"
    and "length (b0 # s) < seqSize (of_char b0)"
  shows "DecodeRuneInString (b0 # s) = (RuneError, 1)"
  using assms by (simp add: DecodeRuneInString_def Let_def)

lemma DecodeRuneInString_bad_two:
  assumes "194 \<le> (of_char b0 :: nat)" and "(of_char b0 :: nat) \<le> 223"
    and "\<not> wellFormed2 b0 b1"
  shows "DecodeRuneInString (b0 # b1 # s) = (RuneError, 1)"
proof -
  from assms(1,2) have sz: "seqSize (of_char b0) = 2" and lo: "acceptLo (of_char b0) = 128"
    and hi: "acceptHi (of_char b0) = 191"
    by (simp_all add: seqSize_def acceptLo_def acceptHi_def)
  from assms have "(of_char b1 :: nat) < 128 \<or> 191 < (of_char b1 :: nat)"
    by (auto simp add: wellFormed2_def continuation_def)
  with assms(1,2) show ?thesis
    by (simp add: DecodeRuneInString_def Let_def sz lo hi)
qed

lemma DecodeRuneInString_bad_three:
  assumes "224 \<le> (of_char b0 :: nat)" and "(of_char b0 :: nat) \<le> 239"
    and "\<not> wellFormed3 b0 b1 b2"
  shows "DecodeRuneInString (b0 # b1 # b2 # s) = (RuneError, 1)"
proof -
  from assms(1,2) have sz: "seqSize (of_char b0) = 3" by (simp add: seqSize_def)
  from assms have "((of_char b1 :: nat) < acceptLo (of_char b0) \<or> acceptHi (of_char b0) < (of_char b1 :: nat))
      \<or> ((of_char b2 :: nat) < 128 \<or> 191 < (of_char b2 :: nat))"
    by (auto simp add: wellFormed3_def continuation_def acceptLo_def acceptHi_def)
  then show ?thesis
  proof (elim disjE)
    assume "(of_char b1 :: nat) < acceptLo (of_char b0)"
    with assms(1,2) show ?thesis by (simp add: DecodeRuneInString_def Let_def sz)
  next
    assume "acceptHi (of_char b0) < (of_char b1 :: nat)"
    with assms(1,2) show ?thesis by (simp add: DecodeRuneInString_def Let_def sz)
  next
    assume "(of_char b2 :: nat) < 128"
    with assms(1,2) show ?thesis by (simp add: DecodeRuneInString_def Let_def sz)
  next
    assume "191 < (of_char b2 :: nat)"
    with assms(1,2) show ?thesis by (simp add: DecodeRuneInString_def Let_def sz)
  qed
qed

lemma DecodeRuneInString_bad_four:
  assumes "240 \<le> (of_char b0 :: nat)" and "(of_char b0 :: nat) \<le> 244"
    and "\<not> wellFormed4 b0 b1 b2 b3"
  shows "DecodeRuneInString (b0 # b1 # b2 # b3 # s) = (RuneError, 1)"
proof -
  from assms(1,2) have sz: "seqSize (of_char b0) = 4" by (simp add: seqSize_def)
  from assms have "((of_char b1 :: nat) < acceptLo (of_char b0) \<or> acceptHi (of_char b0) < (of_char b1 :: nat))
      \<or> ((of_char b2 :: nat) < 128 \<or> 191 < (of_char b2 :: nat))
      \<or> ((of_char b3 :: nat) < 128 \<or> 191 < (of_char b3 :: nat))"
    by (auto simp add: wellFormed4_def continuation_def acceptLo_def acceptHi_def)
  then show ?thesis
  proof (elim disjE)
    assume "(of_char b1 :: nat) < acceptLo (of_char b0)"
    with assms(1,2) show ?thesis by (simp add: DecodeRuneInString_def Let_def sz)
  next
    assume "acceptHi (of_char b0) < (of_char b1 :: nat)"
    with assms(1,2) show ?thesis by (simp add: DecodeRuneInString_def Let_def sz)
  next
    assume "(of_char b2 :: nat) < 128"
    with assms(1,2) show ?thesis by (simp add: DecodeRuneInString_def Let_def sz)
  next
    assume "191 < (of_char b2 :: nat)"
    with assms(1,2) show ?thesis by (simp add: DecodeRuneInString_def Let_def sz)
  next
    assume "(of_char b3 :: nat) < 128"
    with assms(1,2) show ?thesis by (simp add: DecodeRuneInString_def Let_def sz)
  next
    assume "191 < (of_char b3 :: nat)"
    with assms(1,2) show ?thesis by (simp add: DecodeRuneInString_def Let_def sz)
  qed
qed

lemma AppendRune_two:
  assumes "wellFormed2 b0 b1"
  shows "AppendRune [] (scalarValue [b0, b1]) = [b0, b1]"
proof -
  let ?r = "(of_char b0 - 192) * 64 + (of_char b1 - 128) :: nat"
  note r = wellFormed2_range [OF assms]
  note a = two_byte_value [OF r]
  have v: "scalarValue [b0, b1] = ?r"
    by (simp add: scalarValue_def)
  from a(1) have big: "\<not> ?r \<le> 127" by simp
  show ?thesis unfolding v AppendRune_def
    by (simp only: big a if_False if_True simp_thms append_Nil char_of_char)
qed

lemma AppendRune_three:
  assumes "wellFormed3 b0 b1 b2"
  shows "AppendRune [] (scalarValue [b0, b1, b2]) = [b0, b1, b2]"
proof -
  let ?r = "(of_char b0 - 224) * 4096 + (of_char b1 - 128) * 64 + (of_char b2 - 128) :: nat"
  note r = wellFormed3_range [OF assms]
  note a = three_byte_value [OF r(1-6)]
  have v: "scalarValue [b0, b1, b2] = ?r"
    by (simp add: scalarValue_def)
  from a(5) [OF r(7)] have big: "\<not> ?r \<le> 127" "\<not> ?r \<le> 2047"
    by simp_all
  from a(6) [OF r(8)] have nosur: "\<not> (55296 \<le> ?r \<and> ?r \<le> 57343)"
    by linarith
  from a(1) have top: "\<not> 1114111 < ?r"
    by simp
  show ?thesis unfolding v AppendRune_def
    by (simp only: big nosur top a if_False if_True simp_thms append_Nil char_of_char)
qed

lemma AppendRune_four:
  assumes "wellFormed4 b0 b1 b2 b3"
  shows "AppendRune [] (scalarValue [b0, b1, b2, b3]) = [b0, b1, b2, b3]"
proof -
  let ?r = "(of_char b0 - 240) * 262144 + (of_char b1 - 128) * 4096 + (of_char b2 - 128) * 64
        + (of_char b3 - 128) :: nat"
  note r = wellFormed4_range [OF assms]
  note a = four_byte_value [OF r(1-8)]
  have v: "scalarValue [b0, b1, b2, b3] = ?r"
    by (simp add: scalarValue_def)
  from a(5) [OF r(9)] have big: "\<not> ?r \<le> 127" "\<not> ?r \<le> 2047" "\<not> ?r \<le> 65535"
    "\<not> (55296 \<le> ?r \<and> ?r \<le> 57343)"
    by linarith+
  from a(6) [OF r(10)] have top: "\<not> 1114111 < ?r"
    by simp
  show ?thesis unfolding v AppendRune_def
    by (simp only: big top a if_False if_True simp_thms append_Nil char_of_char)
qed


lemma IsPrint_printable: "128 \<le> r \<Longrightarrow> IsPrint tbl r = printable tbl r"
  by (auto simp add: IsPrint_def printable_def)

lemma appendEscapedRune_rune:
  assumes "128 \<le> r" and "r \<le> 1114111" and "\<not> (55296 \<le> r \<and> r \<le> 57343)"
  shows "appendEscapedRune tbl [] r =
    (if printable tbl r then AppendRune [] r
     else if r < 65536 then [backslash, CHR ''u''] @ hexNumber 4 r
     else [backslash, CHR ''U''] @ hexNumber 8 r)"
proof -
  from assms(1) have ne: "r \<noteq> of_char dquote" "r \<noteq> of_char backslash" "r \<noteq> 7" "r \<noteq> 8"
    "r \<noteq> 12" "r \<noteq> 10" "r \<noteq> 13" "r \<noteq> 9" "r \<noteq> 11" "\<not> (r < 32 \<or> r = 127)"
    by (simp_all add: dquote_def backslash_def)
  from assms(2,3) have ok: "\<not> (1114111 < r \<or> 55296 \<le> r \<and> r \<le> 57343)" by simp
  show ?thesis
    unfolding appendEscapedRune_def IsPrint_printable [OF assms(1)] hexDigits_hexNumber
    by (simp only: ne ok if_False simp_thms append_Nil)
qed

lemma scalarValue_range:
  "wellFormed2 b0 b1 \<Longrightarrow> 128 \<le> scalarValue [b0, b1] \<and> scalarValue [b0, b1] \<le> 2047"
  "wellFormed3 b0 b1 b2 \<Longrightarrow> 128 \<le> scalarValue [b0, b1, b2] \<and> scalarValue [b0, b1, b2] < 65536
     \<and> \<not> (55296 \<le> scalarValue [b0, b1, b2] \<and> scalarValue [b0, b1, b2] \<le> 57343)"
  "wellFormed4 b0 b1 b2 b3 \<Longrightarrow> 65536 \<le> scalarValue [b0, b1, b2, b3]
     \<and> scalarValue [b0, b1, b2, b3] \<le> 1114111"
proof -
  show "128 \<le> scalarValue [b0, b1] \<and> scalarValue [b0, b1] \<le> 2047" if "wellFormed2 b0 b1"
  proof -
    let ?r = "(of_char b0 - 192) * 64 + (of_char b1 - 128) :: nat"
    note a = two_byte_value [OF wellFormed2_range [OF that]]
    have v: "scalarValue [b0, b1] = ?r" by (simp add: scalarValue_def)
    from a(1) a(2) show ?thesis unfolding v by linarith
  qed
  show "128 \<le> scalarValue [b0, b1, b2] \<and> scalarValue [b0, b1, b2] < 65536
     \<and> \<not> (55296 \<le> scalarValue [b0, b1, b2] \<and> scalarValue [b0, b1, b2] \<le> 57343)"
    if "wellFormed3 b0 b1 b2"
  proof -
    let ?r = "(of_char b0 - 224) * 4096 + (of_char b1 - 128) * 64 + (of_char b2 - 128) :: nat"
    note r = wellFormed3_range [OF that]
    note a = three_byte_value [OF r(1-6)]
    have v: "scalarValue [b0, b1, b2] = ?r" by (simp add: scalarValue_def)
    from a(1) a(5) [OF r(7)] a(6) [OF r(8)] show ?thesis unfolding v by linarith
  qed
  show "65536 \<le> scalarValue [b0, b1, b2, b3] \<and> scalarValue [b0, b1, b2, b3] \<le> 1114111"
    if "wellFormed4 b0 b1 b2 b3"
  proof -
    let ?r = "(of_char b0 - 240) * 262144 + (of_char b1 - 128) * 4096 + (of_char b2 - 128) * 64
        + (of_char b3 - 128) :: nat"
    note r = wellFormed4_range [OF that]
    note a = four_byte_value [OF r(1-8)]
    have v: "scalarValue [b0, b1, b2, b3] = ?r" by (simp add: scalarValue_def)
    from a(5) [OF r(9)] a(6) [OF r(10)] show ?thesis unfolding v by linarith
  qed
qed

lemma runeStep_decoded:
  assumes "128 \<le> (of_char b0 :: nat)" and "DecodeRuneInString (b0 # t) = (r, w)" and "1 < w"
  shows "runeStep tbl (b0 # t) = (appendEscapedRune tbl [] r, w)"
  using assms by (simp add: runeStep_def Let_def)

lemma runeStep_bad:
  assumes "128 \<le> (of_char b0 :: nat)" and "DecodeRuneInString (b0 # t) = (RuneError, 1)"
  shows "runeStep tbl (b0 # t) = (unitText tbl [b0], 1)"
  using assms by (simp add: runeStep_def Let_def unitText_def hexEscape_eq)

lemma runeStep_wellFormed2:
  assumes "wellFormed2 b0 b1"
  shows "runeStep tbl (b0 # b1 # t) = (unitText tbl [b0, b1], 2)"
proof -
  from wellFormed2_range(1) [OF assms] have lead: "128 \<le> (of_char b0 :: nat)" by simp
  note v = scalarValue_range(1) [OF assms]
  have "runeStep tbl (b0 # b1 # t) = (appendEscapedRune tbl [] (scalarValue [b0, b1]), 2)"
    by (rule runeStep_decoded [OF lead DecodeRuneInString_two [OF assms]]) simp
  also have "appendEscapedRune tbl [] (scalarValue [b0, b1]) = unitText tbl [b0, b1]"
    using v by (subst appendEscapedRune_rune) (simp_all add: AppendRune_two [OF assms] unitText_def)
  finally show ?thesis .
qed

lemma runeStep_wellFormed3:
  assumes "wellFormed3 b0 b1 b2"
  shows "runeStep tbl (b0 # b1 # b2 # t) = (unitText tbl [b0, b1, b2], 3)"
proof -
  from wellFormed3_range(1) [OF assms] have lead: "128 \<le> (of_char b0 :: nat)" by simp
  note v = scalarValue_range(2) [OF assms]
  have "runeStep tbl (b0 # b1 # b2 # t) = (appendEscapedRune tbl [] (scalarValue [b0, b1, b2]), 3)"
    by (rule runeStep_decoded [OF lead DecodeRuneInString_three [OF assms]]) simp
  also have "appendEscapedRune tbl [] (scalarValue [b0, b1, b2]) = unitText tbl [b0, b1, b2]"
    using v by (subst appendEscapedRune_rune) (simp_all add: AppendRune_three [OF assms] unitText_def)
  finally show ?thesis .
qed

lemma runeStep_wellFormed4:
  assumes "wellFormed4 b0 b1 b2 b3"
  shows "runeStep tbl (b0 # b1 # b2 # b3 # t) = (unitText tbl [b0, b1, b2, b3], 4)"
proof -
  from wellFormed4_range(1) [OF assms] have lead: "128 \<le> (of_char b0 :: nat)" by simp
  note v = scalarValue_range(3) [OF assms]
  have "runeStep tbl (b0 # b1 # b2 # b3 # t)
      = (appendEscapedRune tbl [] (scalarValue [b0, b1, b2, b3]), 4)"
    by (rule runeStep_decoded [OF lead DecodeRuneInString_four [OF assms]]) simp
  also have "appendEscapedRune tbl [] (scalarValue [b0, b1, b2, b3]) = unitText tbl [b0, b1, b2, b3]"
    using v by (subst appendEscapedRune_rune) (simp_all add: AppendRune_four [OF assms] unitText_def)
  finally show ?thesis .
qed

lemma unitWidth_cases: "unitWidth s = 1 \<or> unitWidth s = 2 \<or> unitWidth s = 3 \<or> unitWidth s = 4"
  by (cases s rule: unitWidth.cases) simp_all

lemma unitWidth_two:
  assumes "unitWidth s = 2"
  obtains b0 b1 t where "s = b0 # b1 # t" and "wellFormed2 b0 b1"
  using assms by (cases s rule: unitWidth.cases) (simp_all split: if_splits)

lemma unitWidth_three:
  assumes "unitWidth s = 3"
  obtains b0 b1 b2 t where "s = b0 # b1 # b2 # t" and "wellFormed3 b0 b1 b2"
  using assms by (cases s rule: unitWidth.cases) (simp_all split: if_splits)

lemma unitWidth_four:
  assumes "unitWidth s = 4"
  obtains b0 b1 b2 b3 t where "s = b0 # b1 # b2 # b3 # t" and "wellFormed4 b0 b1 b2 b3"
  using assms by (cases s rule: unitWidth.cases) (simp_all split: if_splits)

lemma unitWidth_one:
  assumes "unitWidth (b0 # s) = 1"
  shows "s = b1 # t \<Longrightarrow> \<not> wellFormed2 b0 b1"
    and "s = b1 # b2 # t \<Longrightarrow> \<not> wellFormed3 b0 b1 b2"
    and "s = b1 # b2 # b3 # t \<Longrightarrow> \<not> wellFormed4 b0 b1 b2 b3"
proof -
  show "\<not> wellFormed2 b0 b1" if "s = b1 # t"
    using assms that by (cases "b0 # s" rule: unitWidth.cases) (simp_all split: if_splits)
  show "\<not> wellFormed3 b0 b1 b2" if "s = b1 # b2 # t"
    using assms that by (cases "b0 # s" rule: unitWidth.cases) (simp_all split: if_splits)
  show "\<not> wellFormed4 b0 b1 b2 b3" if "s = b1 # b2 # b3 # t"
    using assms that by (cases "b0 # s" rule: unitWidth.cases) (simp_all split: if_splits)
qed

lemma DecodeRuneInString_ill_formed:
  assumes lead: "128 \<le> (of_char b0 :: nat)" and one: "unitWidth (b0 # s) = 1"
  shows "DecodeRuneInString (b0 # s) = (RuneError, 1)"
proof -
  consider (bad) "(of_char b0 :: nat) < 194 \<or> 244 < (of_char b0 :: nat)"
    | (two) "194 \<le> (of_char b0 :: nat)" "(of_char b0 :: nat) \<le> 223"
    | (three) "224 \<le> (of_char b0 :: nat)" "(of_char b0 :: nat) \<le> 239"
    | (four) "240 \<le> (of_char b0 :: nat)" "(of_char b0 :: nat) \<le> 244"
    by linarith
  then show ?thesis
  proof cases
    case bad
    then show ?thesis by (rule DecodeRuneInString_bad_lead [OF lead])
  next
    case two
    then have sz: "seqSize (of_char b0) = 2" by (simp add: seqSize_def)
    show ?thesis
    proof (cases s)
      case Nil
      with two sz show ?thesis by (simp add: DecodeRuneInString_short)
    next
      case (Cons b1 t)
      from unitWidth_one(1) [OF one Cons] show ?thesis
        unfolding Cons by (rule DecodeRuneInString_bad_two [OF two])
    qed
  next
    case three
    then have lead2: "194 \<le> (of_char b0 :: nat)" "(of_char b0 :: nat) \<le> 244" by simp_all
    from three have sz: "seqSize (of_char b0) = 3" by (simp add: seqSize_def)
    consider (short) "length s < 2" | (long) b1 b2 t where "s = b1 # b2 # t"
      by (cases s; cases "tl s") auto
    then show ?thesis
    proof cases
      case short
      then have "length (b0 # s) < seqSize (of_char b0)" by (simp add: sz)
      then show ?thesis by (rule DecodeRuneInString_short [OF lead2])
    next
      case long
      from unitWidth_one(2) [OF one long] show ?thesis
        unfolding long by (rule DecodeRuneInString_bad_three [OF three])
    qed
  next
    case four
    then have lead2: "194 \<le> (of_char b0 :: nat)" "(of_char b0 :: nat) \<le> 244" by simp_all
    from four have sz: "seqSize (of_char b0) = 4" by (simp add: seqSize_def)
    consider (short) "length s < 3" | (long) b1 b2 b3 t where "s = b1 # b2 # b3 # t"
      by (cases s; cases "tl s"; cases "tl (tl s)") auto
    then show ?thesis
    proof cases
      case short
      then have "length (b0 # s) < seqSize (of_char b0)" by (simp add: sz)
      then show ?thesis by (rule DecodeRuneInString_short [OF lead2])
    next
      case long
      from unitWidth_one(3) [OF one long] show ?thesis
        unfolding long by (rule DecodeRuneInString_bad_four [OF four])
    qed
  qed
qed

lemma runeStep_unit:
  assumes "s \<noteq> []"
  shows "runeStep tbl s = (unitText tbl (take (unitWidth s) s), unitWidth s)"
proof -
  from unitWidth_cases [of s] show ?thesis
  proof (elim disjE)
    assume "unitWidth s = 1"
    moreover from assms obtain b0 t where s: "s = b0 # t" by (cases s) auto
    ultimately have one: "unitWidth (b0 # t) = 1" by (simp only: s)
    show ?thesis
    proof (cases "(of_char b0 :: nat) < 128")
      case True
      then show ?thesis
        unfolding s one by (simp add: runeStep_ascii unitText_def)
    next
      case False
      then have lead: "128 \<le> (of_char b0 :: nat)" by simp
      from runeStep_bad [OF lead DecodeRuneInString_ill_formed [OF lead one]] show ?thesis
        unfolding s one by simp
    qed
  next
    assume two: "unitWidth s = 2"
    then obtain b0 b1 t where s: "s = b0 # b1 # t" and wf: "wellFormed2 b0 b1"
      by (rule unitWidth_two)
    from two have w: "unitWidth (b0 # b1 # t) = 2" by (simp only: s)
    from runeStep_wellFormed2 [OF wf] show ?thesis unfolding s w by simp
  next
    assume three: "unitWidth s = 3"
    then obtain b0 b1 b2 t where s: "s = b0 # b1 # b2 # t" and wf: "wellFormed3 b0 b1 b2"
      by (rule unitWidth_three)
    from three have w: "unitWidth (b0 # b1 # b2 # t) = 3" by (simp only: s)
    from runeStep_wellFormed3 [OF wf] show ?thesis unfolding s w by simp
  next
    assume four: "unitWidth s = 4"
    then obtain b0 b1 b2 b3 t where s: "s = b0 # b1 # b2 # b3 # t"
      and wf: "wellFormed4 b0 b1 b2 b3"
      by (rule unitWidth_four)
    from four have w: "unitWidth (b0 # b1 # b2 # b3 # t) = 4" by (simp only: s)
    from runeStep_wellFormed4 [OF wf] show ?thesis unfolding s w by simp
  qed
qed

lemma quoteBody_quotedText: "quoteBody tbl s = quotedText tbl s"
proof (induction "length s" arbitrary: s rule: less_induct)
  case less
  show ?case
  proof (cases "s = []")
    case True
    then show ?thesis
      by (simp add: quoteBody_def appendQuoted_loop.simps quotedText_def units.simps)
  next
    case False
    from runeStep_width [OF False, of tbl] have "0 < unitWidth s"
      by (simp add: runeStep_unit [OF False])
    with False have shorter: "length (drop (unitWidth s) s) < length s" by simp
    have "quoteBody tbl s
        = unitText tbl (take (unitWidth s) s) @ quoteBody tbl (drop (unitWidth s) s)"
      using quoteBody_step [OF False, of tbl] by (simp add: runeStep_unit [OF False])
    also have "quoteBody tbl (drop (unitWidth s) s) = quotedText tbl (drop (unitWidth s) s)"
      by (rule less [OF shorter])
    also have "unitText tbl (take (unitWidth s) s) @ quotedText tbl (drop (unitWidth s) s)
        = quotedText tbl s"
      using False by (simp add: quotedText_def units.simps [of s])
    finally show ?thesis .
  qed
qed

lemma units_concat: "concat (units s) = s"
proof (induction "length s" arbitrary: s rule: less_induct)
  case less
  show ?case
  proof (cases "s = []")
    case True
    then show ?thesis by (simp add: units.simps)
  next
    case False
    from unitWidth_cases [of s] have "0 < unitWidth s" by auto
    with False have "length (drop (unitWidth s) s) < length s" by simp
    then have "concat (units (drop (unitWidth s) s)) = drop (unitWidth s) s" by (rule less)
    with False show ?thesis by (simp add: units.simps [of s])
  qed
qed

subsection \<open>The example name\<close>

lemma hexNumber_numeral:
  "hexNumber (numeral k) r = hexNumber (pred_numeral k) (r div 16) @ [hexDigit (r mod 16)]"
proof -
  have "hexNumber (Suc (pred_numeral k)) r
      = hexNumber (pred_numeral k) (r div 16) @ [hexDigit (r mod 16)]"
    by simp
  then show ?thesis by (simp only: numeral_eq_Suc [of k, symmetric])
qed

lemma hexDigits_numeral:
  "hexDigits (numeral k) r =
     lowerhex ((r div 16 ^ pred_numeral k) mod 16) # hexDigits (pred_numeral k) r"
proof -
  have "hexDigits (Suc (pred_numeral k)) r
      = lowerhex ((r div 16 ^ pred_numeral k) mod 16) # hexDigits (pred_numeral k) r"
    by simp
  then show ?thesis by (simp only: numeral_eq_Suc [of k, symmetric])
qed

lemma units_quoteInput:
  "units quoteInput =
    [[CHR ''a''], [dquote], [backslash], [nl], [CHR 0x01], [CHR 0x7F], [CHR 0xFF],
     [CHR 0xC3, CHR 0xB8], [CHR 0xC2, CHR 0xA0], [CHR 0xE2, CHR 0x82, CHR 0xAC],
     [CHR 0xE2, CHR 0x80, CHR 0xA8], [CHR 0xF0, CHR 0x9F, CHR 0x98, CHR 0x80],
     [CHR 0xF3, CHR 0xA0, CHR 0x80, CHR 0x81], [CHR 0xC0], [CHR 0x80], [CHR 0xED], [CHR 0xA0],
     [CHR 0x80], [CHR 0xE2], [CHR 0x82]]"
  by (simp add: quoteInput_def units.simps wellFormed2_def wellFormed3_def wellFormed4_def
      continuation_def dquote_def backslash_def nl_def)

lemma quotedText_quoteInput:
  "dquote # quotedText printableTable quoteInput @ [dquote] = quoteOutput"
  by (simp add: quotedText_def units_quoteInput quoteOutput_def unitText_def escapeByte_def
      hexEscape_def hexNumber_numeral hexDigit_def scalarValue_def printable_def
      printableTable_def char_of_eq_iff dquote_def backslash_def nl_def)

text \<open>
  Claim C7, as amended. \<open>quote\<close> returns \<open>/dev/null\<close> as it is and returns as it is every
  input that starts with a double quote. Every other input comes back between two double
  quotes, unit by unit (the units make up the input): a double quote and a backslash with
  a backslash before them, an ASCII control character as its escape (\<open>\a\<close>, \<open>\b\<close>, \<open>\f\<close>,
  \<open>\n\<close>, \<open>\r\<close>, \<open>\t\<close>, \<open>\v\<close>, otherwise \<open>\x\<close> and two hexadecimal digits), a byte that is
  not part of a well-formed UTF-8 sequence as \<open>\x\<close> and two hexadecimal digits, a
  character above \<open>0x7F\<close> that is not printable as \<open>\u\<close> and four hexadecimal digits or
  \<open>\U\<close> and eight, and everything else as it is. So an input of ASCII bytes comes back
  wrapped, with the escapes of \<open>escapeByte\<close> alone.
\<close>

theorem quote_cases:
  "quote tbl ''/dev/null'' = ''/dev/null''
   \<and> quote tbl (dquote # s) = dquote # s
   \<and> (inp \<noteq> ''/dev/null'' \<and> \<not> prefix [dquote] inp \<longrightarrow>
        quote tbl inp = [dquote] @ quotedText tbl inp @ [dquote] \<and> concat (units inp) = inp)
   \<and> (inp \<noteq> ''/dev/null'' \<and> \<not> prefix [dquote] inp \<and> (\<forall>c \<in> set inp. (of_char c :: nat) < 128) \<longrightarrow>
        quote tbl inp = [dquote] @ concat (map escapeByte inp) @ [dquote])"
proof -
  have body: "appendQuoted_loop tbl [dquote] inp = [dquote] @ quotedText tbl inp"
    using appendQuoted_loop_buf [of tbl "[dquote]" inp] quoteBody_quotedText [of tbl inp]
    by (simp add: quoteBody_def)
  have ascii: "appendQuoted_loop tbl [dquote] inp = [dquote] @ concat (map escapeByte inp)"
    if "\<forall>c \<in> set inp. (of_char c :: nat) < 128"
    by (rule appendQuoted_loop_ascii [OF that])
  have "quote tbl ''/dev/null'' = ''/dev/null''" by (simp add: quote_def)
  moreover have "quote tbl (dquote # s) = dquote # s" by (simp add: quote_def)
  moreover have "quote tbl inp = [dquote] @ quotedText tbl inp @ [dquote]"
    if "inp \<noteq> ''/dev/null''" "\<not> prefix [dquote] inp"
    using that body by (simp add: quote_def Sprintf_q_def)
  moreover have "quote tbl inp = [dquote] @ concat (map escapeByte inp) @ [dquote]"
    if "inp \<noteq> ''/dev/null''" "\<not> prefix [dquote] inp" "\<forall>c \<in> set inp. (of_char c :: nat) < 128"
    using that(1,2) ascii [OF that(3)] by (simp add: quote_def Sprintf_q_def)
  ultimately show ?thesis using units_concat [of inp] by blast
qed

theorem quote_cases_witness:
  "quoteInput \<noteq> ''/dev/null'' \<and> \<not> prefix [dquote] quoteInput
   \<and> quote printableTable quoteInput = quoteOutput
   \<and> concat (units quoteInput) = quoteInput
   \<and> quote printableTable ''/dev/null'' = ''/dev/null''
   \<and> quote printableTable (dquote # ''a b'') = dquote # ''a b''
   \<and> quote printableTable ''a b'' = [dquote] @ ''a b'' @ [dquote]"
proof -
  have ne: "quoteInput \<noteq> ''/dev/null''" "\<not> prefix [dquote] quoteInput"
    by (simp_all add: quoteInput_def dquote_def)
  note name = quote_cases [where tbl = printableTable and s = "''a b''" and inp = quoteInput]
  note ascii = quote_cases [where tbl = printableTable and s = "[]" and inp = "''a b''"]
  have null: "quote printableTable ''/dev/null'' = ''/dev/null''"
    by (rule name [THEN conjunct1])
  have quoted: "quote printableTable (dquote # ''a b'') = dquote # ''a b''"
    by (rule name [THEN conjunct2, THEN conjunct1])
  from name [THEN conjunct2, THEN conjunct2, THEN conjunct1] ne
  have other: "quote printableTable quoteInput = dquote # quotedText printableTable quoteInput @ [dquote]"
    and parts: "concat (units quoteInput) = quoteInput"
    by simp_all
  from other have out: "quote printableTable quoteInput = quoteOutput"
    by (simp only: quotedText_quoteInput)
  from ascii [THEN conjunct2, THEN conjunct2, THEN conjunct2]
  have plain: "quote printableTable ''a b'' = [dquote] @ ''a b'' @ [dquote]"
    by (simp add: escapeByte_def dquote_def)
  from ne null quoted out parts plain show ?thesis by simp
qed

text \<open>
  The counterexample to claim C7 as it was stated: the byte \<open>0xFF\<close> and the no-break
  space \<open>U+00A0\<close> (the bytes \<open>0xC2\<close>, \<open>0xA0\<close>) are no quote, no backslash and no control
  character, so with the escapes of the claim alone they would come back as they are
  between the two quotes; \<open>quote\<close> writes \<open>\xff\<close> and \<open>\u00a0\<close> for them.
\<close>

theorem quote_escapes_other_bytes:
  "quote printableTable [CHR 0xFF] = [dquote, backslash, CHR ''x'', CHR ''f'', CHR ''f'', dquote]
   \<and> [dquote] @ concat (map escapeByte [CHR 0xFF]) @ [dquote] = [dquote, CHR 0xFF, dquote]
   \<and> quote printableTable [CHR 0xC2, CHR 0xA0] =
       [dquote, backslash, CHR ''u'', CHR ''0'', CHR ''0'', CHR ''a'', CHR ''0'', dquote]
   \<and> [dquote] @ concat (map escapeByte [CHR 0xC2, CHR 0xA0]) @ [dquote] =
       [dquote, CHR 0xC2, CHR 0xA0, dquote]"
  by (simp add: quote_def Sprintf_q_def appendQuoted_loop.simps DecodeRuneInString_def Let_def
      seqSize_def acceptLo_def acceptHi_def appendEscapedRune_def IsPrint_def RuneError_def
      lowerhex_def dquote_def backslash_def hexDigits_numeral printableTable_def escapeByte_def)

section \<open>Properties of the file-diff printer\<close>

lemma printXheaders_eq:
  "printXheaders E opts d buf xs = buf @ concat (map (extendedLine E (quoteNames opts) d) xs)"
  by (induction xs arbitrary: buf)
    (simp_all add: extendedLine_def printQuotedXheader_def Let_def)

lemma extendedLine_frame:
  "extendedLine E q (d\<lparr>Hunks := hs, OrigTime := ta, NewTime := tb\<rparr>) = extendedLine E q d"
  by (rule ext) (simp add: extendedLine_def)

lemma printFileHeader_eq:
  "printFileHeader E w marker name time quoted = w @ fileHeaderLine E quoted marker name time"
  by (simp add: printFileHeader_def fileHeaderLine_def Let_def split: option.split)

text \<open>
  Claim C3. For a file diff whose \<open>NewName\<close> is empty, \<open>PrintFileDiff\<close> returns the lines
  of the extended headers followed by the one message built from the directory and the
  base name of \<open>OrigName\<close>, and nothing else: the result does not depend on the hunks or
  on the two times, so no file header line and no hunk is printed.
\<close>

theorem PrintFileDiff_single_sided:
  assumes "NewName d = []"
  shows "PrintFileDiff E (Some d) options =
      Inr (extendedLines E (quoteNames (getOptions options)) d
           @ onlyInMessage E (filepathDir E (OrigName d)) (filepathBase E (OrigName d)))
    \<and> PrintFileDiff E (Some (d\<lparr>Hunks := hs, OrigTime := ta, NewTime := tb\<rparr>)) options =
        PrintFileDiff E (Some d) options"
  using assms
  by (simp add: PrintFileDiff_def Let_def printXheaders_eq extendedLines_def extendedLine_frame)

theorem PrintFileDiff_single_sided_witness:
  "NewName deleted = []
   \<and> PrintFileDiff envA (Some deleted) [] =
       Inr (''diff --git a/old.txt b/old.txt'' @ [nl] @ ''deleted file mode 100644'' @ [nl]
            @ ''Only in .: old.txt'' @ [nl])
   \<and> PrintFileDiff envA (Some (deleted\<lparr>Hunks := None, OrigTime := None, NewTime := Some 3\<rparr>)) [] =
       PrintFileDiff envA (Some deleted) []"
  using PrintFileDiff_single_sided [where d = deleted and E = envA and options = "[]"
      and hs = None and ta = None and tb = "Some 3"]
  by (simp add: deleted_def envA_def extendedLines_def extendedLine_def getOptions_def)

text \<open>
  Claim C8. For a file diff with a name in \<open>NewName\<close>, \<open>PrintFileDiff\<close> returns only the
  lines of the extended headers when \<open>Hunks\<close> is nil, and returns them followed by the two
  file header lines when \<open>Hunks\<close> is present and empty.
\<close>

theorem PrintFileDiff_nil_hunks:
  assumes "NewName d \<noteq> []"
  shows "(Hunks d = None \<longrightarrow>
      PrintFileDiff E (Some d) options = Inr (extendedLines E (quoteNames (getOptions options)) d))
    \<and> (Hunks d = Some [] \<longrightarrow>
      PrintFileDiff E (Some d) options =
        Inr (extendedLines E (quoteNames (getOptions options)) d
             @ fileHeaderLine E (quoteNames (getOptions options)) ''--- '' (OrigName d) (OrigTime d)
             @ fileHeaderLine E (quoteNames (getOptions options)) ''+++ '' (NewName d) (NewTime d)))"
  using assms
  by (simp add: PrintFileDiff_def Let_def printXheaders_eq extendedLines_def
      printFileHeader_eq PrintHunks_def)

theorem PrintFileDiff_nil_hunks_witness:
  "NewName renamed \<noteq> [] \<and> Hunks renamed = None
   \<and> PrintFileDiff envA (Some renamed) [WithQuotedNames] =
       Inr (''rename from '' @ [dquote] @ ''a b'' @ [dquote] @ [nl]
            @ ''rename to '' @ [dquote] @ ''c'' @ [dquote] @ [nl])
   \<and> PrintFileDiff envA (Some (renamed\<lparr>Hunks := Some []\<rparr>)) [WithQuotedNames] =
       Inr (''rename from '' @ [dquote] @ ''a b'' @ [dquote] @ [nl]
            @ ''rename to '' @ [dquote] @ ''c'' @ [dquote] @ [nl]
            @ ''--- '' @ [dquote] @ ''a b'' @ [dquote] @ [nl]
            @ ''+++ '' @ [dquote] @ ''c'' @ [dquote] @ [CHR 0x09] @ ''5'' @ [nl])"
  using PrintFileDiff_nil_hunks [where d = renamed and E = envA and options = "[WithQuotedNames]"]
    PrintFileDiff_nil_hunks [where d = "renamed\<lparr>Hunks := Some []\<rparr>" and E = envA
      and options = "[WithQuotedNames]"]
  by (simp add: renamed_def envA_def extendedLines_def extendedLine_def fileHeaderLine_def
      getOptions_def WithQuotedNames_def quote_ascii escapeByte_def dquote_def showNat.simps
      digit_def)

lemma PrintMultiFileDiff_loop_ok:
  assumes "map (\<lambda>d. PrintFileDiff E d options) ds = map Inr outs"
  shows "PrintMultiFileDiff_loop E options buf ds = Inr (buf @ concat outs)"
  using assms
  by (induction ds arbitrary: buf outs) auto

lemma PrintMultiFileDiff_loop_err:
  assumes "map (\<lambda>d. PrintFileDiff E d options) ds = map Inr outs"
    and "PrintFileDiff E d options = Inl err"
  shows "PrintMultiFileDiff_loop E options buf (ds @ d # rest) = Inl err"
  using assms
  by (induction ds arbitrary: buf outs) auto

text \<open>
  Claim C9. When \<open>PrintFileDiff\<close> returns for every element of the list, with the same
  options, \<open>PrintMultiFileDiff\<close> returns the concatenation of the results in the order of
  the list, with nothing in between. When it panics at an element and returns for all the
  elements before, \<open>PrintMultiFileDiff\<close> panics the same way.
\<close>

theorem PrintMultiFileDiff_concat:
  "(map (\<lambda>d. PrintFileDiff E d options) ds = map Inr outs \<longrightarrow>
      PrintMultiFileDiff E ds options = Inr (concat outs))
   \<and> (map (\<lambda>d. PrintFileDiff E d options) ds = map Inr outs \<and>
       PrintFileDiff E d options = Inl err \<longrightarrow>
      PrintMultiFileDiff E (ds @ d # rest) options = Inl err)"
  using PrintMultiFileDiff_loop_ok [of E options ds outs "[]"]
    PrintMultiFileDiff_loop_err [of E options ds outs d err "[]" rest]
  by (simp add: PrintMultiFileDiff_def)

lemma PrintFileDiff_deleted:
  "PrintFileDiff envA (Some deleted) [] =
     Inr (''diff --git a/old.txt b/old.txt'' @ [nl] @ ''deleted file mode 100644'' @ [nl]
          @ ''Only in .: old.txt'' @ [nl])"
  by (simp add: PrintFileDiff_def deleted_def envA_def getOptions_def Let_def)

lemma PrintFileDiff_changed:
  "PrintFileDiff envA (Some changed) [] =
     Inr (''--- f'' @ [nl] @ ''+++ f'' @ [nl] @ ''@@ -20,1 +21,1 @@'' @ [nl] @ '' c'' @ [nl])"
  by (simp add: PrintFileDiff_def changed_def envA_def getOptions_def Let_def printFileHeader_def
      PrintHunks_def printHunk_def hunkB_def showNat.simps digit_def suffix_to_prefix nl_def)

lemma PrintFileDiff_broken:
  "PrintFileDiff envA (Some broken) [] = Inl SliceBoundsOutOfRange"
  by (simp add: PrintFileDiff_def broken_def envA_def getOptions_def Let_def printFileHeader_def
      PrintHunks_def printHunk_def hunkBad_def sliceTo_def nl_def)

theorem PrintMultiFileDiff_concat_witness:
  "map (\<lambda>d. PrintFileDiff envA d []) [Some deleted, Some changed] =
     map Inr [''diff --git a/old.txt b/old.txt'' @ [nl] @ ''deleted file mode 100644'' @ [nl]
                @ ''Only in .: old.txt'' @ [nl],
              ''--- f'' @ [nl] @ ''+++ f'' @ [nl] @ ''@@ -20,1 +21,1 @@'' @ [nl] @ '' c'' @ [nl]]
   \<and> PrintMultiFileDiff envA [Some deleted, Some changed] [] =
       Inr (''diff --git a/old.txt b/old.txt'' @ [nl] @ ''deleted file mode 100644'' @ [nl]
            @ ''Only in .: old.txt'' @ [nl]
            @ ''--- f'' @ [nl] @ ''+++ f'' @ [nl] @ ''@@ -20,1 +21,1 @@'' @ [nl] @ '' c'' @ [nl])
   \<and> PrintFileDiff envA (Some broken) [] = Inl SliceBoundsOutOfRange
   \<and> PrintMultiFileDiff envA ([Some deleted, Some changed] @ Some broken # [Some changed]) [] =
       Inl SliceBoundsOutOfRange"
  using PrintMultiFileDiff_concat [where E = envA and options = "[]"
      and ds = "[Some deleted, Some changed]"
      and outs = "[''diff --git a/old.txt b/old.txt'' @ [nl] @ ''deleted file mode 100644'' @ [nl]
          @ ''Only in .: old.txt'' @ [nl],
        ''--- f'' @ [nl] @ ''+++ f'' @ [nl] @ ''@@ -20,1 +21,1 @@'' @ [nl] @ '' c'' @ [nl]]"
      and d = "Some broken" and err = SliceBoundsOutOfRange and rest = "[Some changed]"]
  by (simp add: PrintFileDiff_deleted PrintFileDiff_changed PrintFileDiff_broken)

section \<open>Properties of the order of extended headers\<close>

lemma rank_sorted:
  assumes "sorted_wrt (\<lambda>x y. \<not> xheadersLessFunc y x) ys"
  shows "sorted (map xheaderRank ys)"
proof -
  have "sorted_wrt (\<lambda>x y. xheaderRank x \<le> xheaderRank y) ys"
    using assms
    by (rule sorted_wrt_mono_rel [rotated]) (auto simp: xheadersLessFunc_def)
  then show ?thesis by (simp add: sorted_wrt_map)
qed

lemma rank_prefix:
  "xheaderRank l = 0 \<longleftrightarrow> prefix ''diff --git'' l"
  "xheaderRank l = 1 \<longleftrightarrow> prefix ''old mode'' l"
  "xheaderRank l = 2 \<longleftrightarrow> prefix ''new mode'' l"
  by (cases l; auto simp add: xheaderRank_def)+

lemma filter_one:
  assumes "length (filter P xs) = 1"
  shows "\<exists>x \<in> set xs. P x"
proof -
  from assms have "filter P xs \<noteq> []" by auto
  then show ?thesis by (simp add: filter_empty_conv)
qed

lemma filter_one_tail:
  assumes "length (filter P (x # xs)) = 1" and "P x"
  shows "\<forall>y \<in> set xs. \<not> P y"
proof -
  from assms have "filter P xs = []" by simp
  then show ?thesis by (simp add: filter_empty_conv)
qed

lemma sorted_leading_ranks:
  fixes rs :: "nat list"
  assumes srt: "sorted rs"
    and c0: "length (filter (\<lambda>r. r = 0) rs) = 1"
    and c1: "length (filter (\<lambda>r. r = 1) rs) = 1"
    and c2: "length (filter (\<lambda>r. r = 2) rs) = 1"
  shows "\<exists>rest. rs = 0 # 1 # 2 # rest"
proof -
  from filter_one [OF c0] have in0: "0 \<in> set rs" by simp
  then obtain r0 rs1 where rs: "rs = r0 # rs1" by (cases rs) auto
  from srt in0 have "r0 \<le> 0" unfolding rs by auto
  then have r0: "r0 = 0" by simp
  from filter_one_tail [OF c0 [unfolded rs]] r0 have no0: "0 \<notin> set rs1" by auto
  from filter_one [OF c1] r0 have in1: "1 \<in> set rs1" unfolding rs by auto
  then obtain r1 rs2 where rs1: "rs1 = r1 # rs2" by (cases rs1) auto
  from srt in1 have "r1 \<le> 1" unfolding rs rs1 by auto
  moreover from no0 have "r1 \<noteq> 0" unfolding rs1 by auto
  ultimately have r1: "r1 = 1" by simp
  from c1 r0 have c1': "length (filter (\<lambda>r. r = 1) (r1 # rs2)) = 1" unfolding rs rs1 by simp
  from filter_one_tail [OF c1'] r1 have no1: "1 \<notin> set rs2" by auto
  from no0 have no0': "0 \<notin> set rs2" unfolding rs1 by simp
  from filter_one [OF c2] r0 r1 have in2: "2 \<in> set rs2" unfolding rs rs1 by auto
  then obtain r2 rs3 where rs2: "rs2 = r2 # rs3" by (cases rs2) auto
  from srt in2 have "r2 \<le> 2" unfolding rs rs1 rs2 by auto
  moreover from no0' no1 have "r2 \<noteq> 0" "r2 \<noteq> 1" unfolding rs2 by auto
  ultimately have r2: "r2 = 2" by simp
  show ?thesis unfolding rs rs1 rs2 r0 r1 r2 by simp
qed

lemma filter_length_perm:
  assumes "mset ys = mset xs"
  shows "length (filter P ys) = length (filter P xs)"
proof -
  have "mset (filter P ys) = mset (filter P xs)" using assms by (simp only: mset_filter)
  then show ?thesis by (rule mset_eq_length)
qed

lemma sorted_leading_headers:
  assumes perm: "mset ys = mset xs"
    and srt: "sorted_wrt (\<lambda>x y. \<not> xheadersLessFunc y x) ys"
    and c0: "length (filter (prefix ''diff --git'') xs) = 1"
    and c1: "length (filter (prefix ''old mode'') xs) = 1"
    and c2: "length (filter (prefix ''new mode'') xs) = 1"
  shows "prefix ''diff --git'' (ys ! 0) \<and> prefix ''old mode'' (ys ! 1) \<and> prefix ''new mode'' (ys ! 2)"
proof -
  have count: "length (filter (\<lambda>r. r = k) (map xheaderRank ys))
      = length (filter (\<lambda>l. xheaderRank l = k) ys)" for k
    by (simp add: filter_map comp_def)
  have "length (filter (\<lambda>r. r = 0) (map xheaderRank ys)) = 1"
    unfolding count rank_prefix using filter_length_perm [OF perm] c0 by simp
  moreover have "length (filter (\<lambda>r. r = 1) (map xheaderRank ys)) = 1"
    unfolding count rank_prefix using filter_length_perm [OF perm] c1 by simp
  moreover have "length (filter (\<lambda>r. r = 2) (map xheaderRank ys)) = 1"
    unfolding count rank_prefix using filter_length_perm [OF perm] c2 by simp
  ultimately have "\<exists>rest. map xheaderRank ys = 0 # 1 # 2 # rest"
    by (rule sorted_leading_ranks [OF rank_sorted [OF srt]])
  then obtain rest where r: "map xheaderRank ys = 0 # 1 # 2 # rest" ..
  then obtain y0 y1 y2 ys3 where ys: "ys = y0 # y1 # y2 # ys3"
    by (auto simp add: map_eq_Cons_conv)
  from r have "xheaderRank y0 = 0" "xheaderRank y1 = 1" "xheaderRank y2 = 2"
    unfolding ys by simp_all
  then have "prefix ''diff --git'' y0" "prefix ''old mode'' y1" "prefix ''new mode'' y2"
    by (simp_all only: rank_prefix)
  then show ?thesis unfolding ys by simp
qed

text \<open>
  Claim C4. The order of section 4.3 is irreflexive, asymmetric and transitive. Take any
  lines \<open>xs\<close> with exactly one \<open>diff --git\<close> line, exactly one \<open>old mode\<close> line and exactly
  one \<open>new mode\<close> line among them, whatever the other lines are and in whatever order they
  all come: every arrangement \<open>ys\<close> of them that is sorted by the order (no later line is
  less than an earlier one) has the \<open>diff --git\<close> line first, the \<open>old mode\<close> line second
  and the \<open>new mode\<close> line third.
\<close>

theorem xheadersLessFunc_order:
  "\<not> xheadersLessFunc a a
   \<and> (xheadersLessFunc a b \<longrightarrow> \<not> xheadersLessFunc b a)
   \<and> (xheadersLessFunc a b \<and> xheadersLessFunc b c \<longrightarrow> xheadersLessFunc a c)
   \<and> (mset ys = mset xs \<and> sorted_wrt (\<lambda>x y. \<not> xheadersLessFunc y x) ys
      \<and> length (filter (prefix ''diff --git'') xs) = 1
      \<and> length (filter (prefix ''old mode'') xs) = 1
      \<and> length (filter (prefix ''new mode'') xs) = 1 \<longrightarrow>
        prefix ''diff --git'' (ys ! 0) \<and> prefix ''old mode'' (ys ! 1) \<and> prefix ''new mode'' (ys ! 2))"
proof -
  have "\<not> xheadersLessFunc a a" by (simp add: xheadersLessFunc_def)
  moreover have "xheadersLessFunc a b \<longrightarrow> \<not> xheadersLessFunc b a"
    unfolding xheadersLessFunc_def using less_asym [of a b] by auto
  moreover have "xheadersLessFunc a b \<and> xheadersLessFunc b c \<longrightarrow> xheadersLessFunc a c"
    unfolding xheadersLessFunc_def using less_trans [of a b c] by auto
  ultimately show ?thesis using sorted_leading_headers [of ys xs] by blast
qed

theorem xheadersLessFunc_order_witness:
  "xheadersLessFunc ''old mode 100755'' ''new mode 100644''
   \<and> xheadersLessFunc ''new mode 100644'' ''zzz''
   \<and> xheadersLessFunc ''old mode 100755'' ''zzz''
   \<and> \<not> xheadersLessFunc ''new mode 100644'' ''old mode 100755''
   \<and> mset sortedHeaders = mset possibleHeaders
   \<and> sorted_wrt (\<lambda>x y. \<not> xheadersLessFunc y x) sortedHeaders
   \<and> length (filter (prefix ''diff --git'') possibleHeaders) = 1
   \<and> length (filter (prefix ''old mode'') possibleHeaders) = 1
   \<and> length (filter (prefix ''new mode'') possibleHeaders) = 1
   \<and> prefix ''diff --git'' (sortedHeaders ! 0) \<and> prefix ''old mode'' (sortedHeaders ! 1)
   \<and> prefix ''new mode'' (sortedHeaders ! 2)"
proof -
  have less: "xheadersLessFunc ''old mode 100755'' ''new mode 100644''"
    "xheadersLessFunc ''new mode 100644'' ''zzz''"
    by (simp_all add: xheadersLessFunc_def xheaderRank_def)
  have perm: "mset sortedHeaders = mset possibleHeaders"
    by (simp add: sortedHeaders_def possibleHeaders_def)
  have sorted: "sorted_wrt (\<lambda>x y. \<not> xheadersLessFunc y x) sortedHeaders"
    by (simp add: sortedHeaders_def xheadersLessFunc_def xheaderRank_def)
  have count: "length (filter (prefix ''diff --git'') possibleHeaders) = 1"
    "length (filter (prefix ''old mode'') possibleHeaders) = 1"
    "length (filter (prefix ''new mode'') possibleHeaders) = 1"
    by (simp_all add: possibleHeaders_def)
  show ?thesis
    using less perm sorted count
      xheadersLessFunc_order [where a = "''old mode 100755''" and b = "''new mode 100644''"
        and c = "''zzz''" and ys = sortedHeaders and xs = possibleHeaders]
    by blast
qed

section \<open>The decoder and the splitter of the specification on the repository's tests\<close>

text \<open>
  The decoder and the splitter as sections 4.1 and 4.2 of the specification describe them
  fail every input of \<open>TestParseDiffGitArgs_Unsuccessful\<close> and pass the first five rows of
  \<open>TestParseDiffGitArgs_Success\<close>, but not the last three. On \<open>1/hello world 2/hello world\<close>
  the first space whose remainder is a complete argument gives \<open>1/hello\<close>, where the test
  expects \<open>1/hello world\<close>; and the two rows with a backslash and \<open>n\<close> or octal digits
  inside a quoted name are malformed for this decoder, where the test expects them decoded.
  So the two sections do not describe the functions the tests were written for.
\<close>

lemmas splitter_defs = parseDiffGitArgs_def readQuotedFilename_def secondArgument_def
  dquote_def backslash_def nl_def

lemma parseDiffGitArgs_on_success_tests:
  "map passes successTests = [True, True, True, True, True, False, False, False]"
  by (simp add: successTests_def passes_def splitter_defs)

lemma parseDiffGitArgs_on_unsuccessful_tests:
  "map (\<lambda>input. snd (snd (parseDiffGitArgs input))) unsuccessfulTests = replicate 11 False"
  by (simp add: unsuccessfulTests_def splitter_defs eval_nat_numeral)

lemma parseDiffGitArgs_hello_world:
  "parseDiffGitArgs ''1/hello world 2/hello world'' = (''1/hello'', ''world 2/hello world'', True)"
  by (simp add: splitter_defs)

lemma readQuotedFilename_newline_escape:
  "readQuotedFilename ([dquote] @ ''new'' @ [backslash] @ ''nline'' @ [dquote] @ '' and spaces'')
     = Inl MalformedToken"
  by (simp add: splitter_defs)


end
